theory Spec2Isabelle
  imports Main
begin

section \<open>Configuration descriptors\<close>

text \<open>
  The construct reads its configuration through the interfaces \<open>SerialSfnProps\<close>,
  \<open>ISfnObject\<close>, \<open>ISfnChoice\<close>, \<open>ISfnConfig\<close> and \<open>Pass\<close>, imported from
  \<^verbatim>\<open>../types\<close>. The fields below are the ones the construct reads. Opaque
  values of the framework are stood for by an identifier (a Lambda function handle, a
  condition, a \<open>Pass\<close> state) or by a number (a duration, a number of attempts): the
  construct only passes them on.

  JavaScript arrays are objects that are shared by reference and that
  \<^verbatim>\<open>shift()\<close> updates in place, so a descriptor list is held in a store and a
  descriptor refers to it by its address.
\<close>

type_synonym addr = nat

text \<open>Modelled from the spec: \<open>ISfnConfig\<close>, the retry policy of a task descriptor
  (its declaration in \<^verbatim>\<open>../types\<close> is missing); the fields are those that
  \<open>config\<close> reads.\<close>

record ISfnConfig =
  retryInterval :: nat
  retryAttempts :: nat
  errors :: "string list"

text \<open>Modelled from the spec: \<open>ISfnObject\<close>, a task descriptor (task name, function
  reference, optional retry policy); its declaration is missing.\<close>

record ISfnObject =
  name :: string
  function_ref :: string
  obj_config :: "ISfnConfig option"

text \<open>Modelled from the spec: the type \<^verbatim>\<open>Array<ISfnObject> | Pass\<close> of the
  fields \<open>functions\<close> and \<open>defaultFunctions\<close>, as the two casts in \<open>addChoice\<close>
  show it; its declaration is missing. An array has no property \<open>endStates\<close>, a
  \<open>Pass\<close> state has one.\<close>

datatype funcs = Functions addr | PassState string

text \<open>Modelled from the spec: an entry of \<open>ISfnChoice.choices\<close> (a condition and an
  optional function list: the code reads it as \<^verbatim>\<open>choiceObj.functions!\<close>).\<close>

record choiceObj =
  condition :: string
  functions' :: "funcs option"

text \<open>Modelled from the spec: \<open>ISfnChoice\<close>, a choice descriptor; its declaration is
  missing.\<close>

record ISfnChoice =
  choiceName :: string
  choices :: "choiceObj list"
  defaultFunctions :: funcs

text \<open>An element of a descriptor list: the test \<^verbatim>\<open>'choices' in sfnObject\<close>
  tells the two shapes apart.\<close>

datatype descriptor = SfnObject ISfnObject | SfnChoice ISfnChoice

section \<open>The store of descriptor arrays\<close>

text \<open>The store lists the arrays that exist; address \<open>a\<close> denotes the \<open>a\<close>-th of them,
  and an address beyond the list denotes an empty array.\<close>

type_synonym store = "descriptor list list"

definition arr :: "store \<Rightarrow> addr \<Rightarrow> descriptor list" where
  "arr h a = (if a < length h then h ! a else [])"

text \<open>\<^verbatim>\<open>lambdaFunctions.shift()\<close>: removes the first element in place and returns
  it; on an empty array it returns \<open>undefined\<close> and changes nothing.\<close>

definition shift :: "store \<Rightarrow> addr \<Rightarrow> descriptor option \<times> store" where
  "shift h a = (case arr h a of [] \<Rightarrow> (None, h) | d # rest \<Rightarrow> (Some d, h[a := rest]))"

definition store_size :: "store \<Rightarrow> nat" where
  "store_size h = sum_list (map length h)"

section \<open>The states that are built\<close>

record LambdaInvokeProps =
  lambdaFunction :: string
  inputPath :: "string option"
  retryOnServiceExceptions :: bool

record RetryProps =
  interval :: nat
  maxAttempts :: nat
  retry_errors :: "string list"

text \<open>\<^verbatim>\<open>new LambdaInvoke(this, id, props)\<close>, with the retries that
  \<open>addRetry\<close> has added to it so far.\<close>

datatype lambda_task = LambdaInvoke string LambdaInvokeProps "RetryProps list"

definition addRetry :: "lambda_task \<Rightarrow> RetryProps \<Rightarrow> lambda_task" where
  "addRetry t r = (case t of LambdaInvoke i p rs \<Rightarrow> LambdaInvoke i p (rs @ [r]))"

text \<open>What \<open>chainTasks\<close> returns (\<^verbatim>\<open>LambdaInvoke | Chain\<close>): a task, the chain
  \<^verbatim>\<open>task.next(rest)\<close>, or the chain \<^verbatim>\<open>res.afterwards()\<close> of a
  \<^verbatim>\<open>new Choice(this, id)\<close> with the branches that \<open>when\<close> has added to it, each
  a condition and the state it leads to.

  The framework's constructors and methods are calls into a library; the model records
  each call and its arguments and lets it succeed. In the code such a call can throw:
  a construct whose identifier is already used in the scope \<open>this\<close>, \<open>addRetry\<close> with an
  error list that the framework refuses, \<open>next\<close> on a chain that has no end state,
  \<open>when\<close> with a target that is not a state. So every run of the code that returns is a
  run of the model that returns the same value, and a run of the code can throw where
  the model returns. The properties below are therefore stated of the runs that return,
  or are runs that end in a \<open>TypeError\<close> of the construct's own code.\<close>

datatype chain =
    Task lambda_task
  | Next chain chain
  | Afterwards string "(string \<times> target) list"
and target =
    Built chain
  | Given funcs

datatype error =
    UndefinedDescriptor
  | NotAnArray
  | InOfUndefined

section \<open>The construct's methods\<close>

text \<open>\<open>config\<close>: the retry properties of a retry policy.\<close>

definition config :: "ISfnConfig \<Rightarrow> RetryProps" where
  "config c = \<lparr>interval = retryInterval c, maxAttempts = retryAttempts c, retry_errors = errors c\<rparr>"

text \<open>The task that \<open>chainTasks\<close> builds for a task descriptor (the \<open>else\<close> branch of
  its test).\<close>

definition lambdaTask :: "ISfnObject \<Rightarrow> bool \<Rightarrow> lambda_task" where
  "lambdaTask sfnObject first =
     (let task = LambdaInvoke (name sfnObject)
            \<lparr>lambdaFunction = function_ref sfnObject,
             inputPath = (if first then None else Some ''$.Payload''),
             retryOnServiceExceptions = False\<rparr> []
      in case obj_config sfnObject of
           None \<Rightarrow> task
         | Some c \<Rightarrow> addRetry task (config c))"

text \<open>
  \<open>chainTasks\<close> and \<open>addChoice\<close>, with the \<^verbatim>\<open>for ... of\<close> loop of \<open>addChoice\<close> as
  \<open>addChoice_when\<close>. Each takes the store and returns the store it leaves. A
  \<open>TypeError\<close> is a result \<open>Inl\<close>:
  \<^item> \<open>UndefinedDescriptor\<close>: \<open>shift()\<close> returned \<open>undefined\<close> and
    \<^verbatim>\<open>sfnObject.name\<close> is read;
  \<^item> \<open>InOfUndefined\<close>: \<^verbatim>\<open>'endStates' in choiceObj.functions!\<close> where
    \<open>functions\<close> is absent;
  \<^item> \<open>NotAnArray\<close>: \<open>chainTasks\<close> is given a \<open>defaultFunctions\<close> that is a \<open>Pass\<close>
    state, which has no \<open>shift\<close>.
\<close>

function chainTasks :: "store \<Rightarrow> addr \<Rightarrow> bool \<Rightarrow> error + chain \<times> store"
  and addChoice :: "store \<Rightarrow> ISfnChoice \<Rightarrow> bool \<Rightarrow> error + chain \<times> store"
  and addChoice_when ::
    "store \<Rightarrow> funcs \<Rightarrow> bool \<Rightarrow> choiceObj list \<Rightarrow> error + (string \<times> target) list \<times> store"
where
  "chainTasks h lambdaFunctions first =
     (case shift h lambdaFunctions of (sfnObject, h1) \<Rightarrow>
        (case sfnObject of
           Some (SfnChoice c) \<Rightarrow>
             (case addChoice h1 c first of
                Inl e \<Rightarrow> Inl e
              | Inr (task, h2) \<Rightarrow>
                  if arr h2 lambdaFunctions \<noteq> []
                  then (case chainTasks h2 lambdaFunctions first of
                          Inl e \<Rightarrow> Inl e
                        | Inr (rest, h3) \<Rightarrow> Inr (Next task rest, h3))
                  else Inr (task, h2))
         | None \<Rightarrow> Inl UndefinedDescriptor
         | Some (SfnObject obj) \<Rightarrow>
             (if arr h1 lambdaFunctions \<noteq> []
              then (case chainTasks h1 lambdaFunctions False of
                      Inl e \<Rightarrow> Inl e
                    | Inr (rest, h3) \<Rightarrow> Inr (Next (Task (lambdaTask obj first)) rest, h3))
              else Inr (Task (lambdaTask obj first), h1))))"
| "addChoice h choice first =
     (if choices choice = [] then Inr (Afterwards (choiceName choice) [], h)
      else (case addChoice_when h (defaultFunctions choice) first (choices choice) of
              Inl e \<Rightarrow> Inl e
            | Inr (branches, h') \<Rightarrow> Inr (Afterwards (choiceName choice) branches, h')))"
| "addChoice_when h dflt first [] = Inr ([], h)"
| "addChoice_when h dflt first (choiceObj # others) =
     (case functions' choiceObj of
        None \<Rightarrow> Inl InOfUndefined
      | Some (PassState p) \<Rightarrow>
          (case addChoice_when h dflt first others of
             Inl e \<Rightarrow> Inl e
           | Inr (branches, h') \<Rightarrow> Inr ((condition choiceObj, Given dflt) # branches, h'))
      | Some (Functions fs) \<Rightarrow>
          (case dflt of
             PassState p \<Rightarrow> Inl NotAnArray
           | Functions d \<Rightarrow>
               (case chainTasks h d first of
                  Inl e \<Rightarrow> Inl e
                | Inr (body, h1) \<Rightarrow>
                    (case addChoice_when h1 dflt first others of
                       Inl e \<Rightarrow> Inl e
                     | Inr (branches, h2) \<Rightarrow>
                         Inr ((condition choiceObj, Built body) # branches, h2)))))"
  by pat_completeness auto

section \<open>The constructor\<close>

text \<open>Modelled from the spec: the optional error handler of \<open>SerialSfnProps\<close> (the
  constructor reads its \<open>name\<close>, \<open>function\<close> and \<open>errors\<close>) and \<open>SerialSfnProps\<close>
  itself; their declarations are missing.\<close>

record ErrorHandler =
  handler_name :: string
  handler_function :: string
  handler_errors :: "string list"

record SerialSfnProps =
  lambdaFunctions :: addr
  errorHandler :: "ErrorHandler option"
  stateMachineName :: string

record CatchProps =
  catch_errors :: "string list"
  resultPath :: string

text \<open>\<^verbatim>\<open>new Parallel(this, id)\<close> with the branches and the catches added to it.\<close>

record Parallel =
  parallel_id :: string
  branch :: "chain list"
  catches :: "(lambda_task \<times> CatchProps) list"

definition addCatch :: "Parallel \<Rightarrow> lambda_task \<Rightarrow> CatchProps \<Rightarrow> Parallel" where
  "addCatch p handler props = p\<lparr>catches := catches p @ [(handler, props)]\<rparr>"

datatype RemovalPolicy = DESTROY | RETAIN | SNAPSHOT

datatype LogLevel = LogLevel_OFF | LogLevel_ALL | LogLevel_ERROR | LogLevel_FATAL

record LogGroup =
  logGroup_id :: string
  logGroupName :: string
  removalPolicy :: RemovalPolicy

record StateMachine =
  stateMachine_id :: string
  stateMachine_definition :: Parallel
  stateMachine_name :: string
  logs_destination :: LogGroup
  logs_level :: LogLevel

text \<open>The construct after its constructor has run: the \<open>Parallel\<close> and the log group it
  has created, if any, and its field \<open>stateMachine\<close> (\<open>None\<close> is \<open>undefined\<close>).\<close>

record SerialSfnConstruct =
  parallel :: "Parallel option"
  logGroup :: "LogGroup option"
  stateMachine :: "StateMachine option"

definition new_SerialSfnConstruct ::
  "store \<Rightarrow> string \<Rightarrow> SerialSfnProps \<Rightarrow> error + SerialSfnConstruct \<times> store" where
  "new_SerialSfnConstruct h ident props =
     (if arr h (lambdaFunctions props) = []
      then Inr (\<lparr>parallel = None, logGroup = None, stateMachine = None\<rparr>, h)
      else
        (case chainTasks h (lambdaFunctions props) True of
           Inl e \<Rightarrow> Inl e
         | Inr (tasks, h') \<Rightarrow>
            (let definition0 = \<lparr>parallel_id = ''paralle-'' @ ident, branch = [tasks], catches = []\<rparr>;
                 definition1 =
                   (case errorHandler props of
                      None \<Rightarrow> definition0
                    | Some handler \<Rightarrow>
                        addCatch definition0
                          (LambdaInvoke (handler_name handler)
                             \<lparr>lambdaFunction = handler_function handler,
                              inputPath = None,
                              retryOnServiceExceptions = False\<rparr> [])
                          \<lparr>catch_errors = handler_errors handler, resultPath = ''$.error''\<rparr>);
                 lg = \<lparr>logGroup_id = ''logGroup-'' @ ident,
                       logGroupName = ''/aws/vendedlogs/states/'' @ stateMachineName props,
                       removalPolicy = DESTROY\<rparr>
             in Inr (\<lparr>parallel = Some definition1,
                      logGroup = Some lg,
                      stateMachine = Some
                        \<lparr>stateMachine_id = stateMachineName props,
                         stateMachine_definition = definition1,
                         stateMachine_name = stateMachineName props,
                         logs_destination = lg,
                         logs_level = LogLevel_ALL\<rparr>\<rparr>, h'))))"

section \<open>Notions used to state the properties\<close>

text \<open>The Lambda tasks of a chain, in the order of the chain; the tasks inside the
  branches of a choice are not listed.\<close>

fun tasks_of :: "chain \<Rightarrow> lambda_task list" where
  "tasks_of (Task t) = [t]"
| "tasks_of (Next c rest) = tasks_of c @ tasks_of rest"
| "tasks_of (Afterwards i bs) = []"

text \<open>All the Lambda tasks of a chain, those inside the branches of its choices too.\<close>

fun all_tasks :: "chain \<Rightarrow> lambda_task list"
  and target_tasks :: "target \<Rightarrow> lambda_task list" where
  "all_tasks (Task t) = [t]"
| "all_tasks (Next c rest) = all_tasks c @ all_tasks rest"
| "all_tasks (Afterwards i bs) = concat (map (\<lambda>b. target_tasks (snd b)) bs)"
| "target_tasks (Built c) = all_tasks c"
| "target_tasks (Given f) = []"

fun task_id :: "lambda_task \<Rightarrow> string" where
  "task_id (LambdaInvoke i p rs) = i"

fun task_props :: "lambda_task \<Rightarrow> LambdaInvokeProps" where
  "task_props (LambdaInvoke i p rs) = p"

fun task_retries :: "lambda_task \<Rightarrow> RetryProps list" where
  "task_retries (LambdaInvoke i p rs) = rs"

text \<open>\<open>built_from h t\<close>: the task \<open>t\<close> is the one that \<open>chainTasks\<close> builds for a task
  descriptor held in an array of the store \<open>h\<close>.\<close>

definition built_from :: "store \<Rightarrow> lambda_task \<Rightarrow> bool" where
  "built_from h t \<longleftrightarrow> (\<exists>obj f a. SfnObject obj \<in> set (arr h a) \<and> t = lambdaTask obj f)"

text \<open>\<open>consumed h h'\<close>: the store \<open>h'\<close> holds the arrays of \<open>h\<close>, each with some of its
  first elements removed.\<close>

definition consumed :: "store \<Rightarrow> store \<Rightarrow> bool" where
  "consumed h h' \<longleftrightarrow> length h' = length h \<and> (\<forall>a. \<exists>k. arr h' a = drop k (arr h a))"

text \<open>\<open>chainTasks_calls x y\<close>: the run of \<open>chainTasks\<close> on \<open>x\<close> (a store, the address of
  the list and the flag) calls \<open>chainTasks\<close> on \<open>y\<close>, either itself, on the rest of its
  list, or through \<open>addChoice\<close>, on the \<open>defaultFunctions\<close> of the choice it has just
  removed from its list.\<close>

inductive chainTasks_calls :: "store \<times> addr \<times> bool \<Rightarrow> store \<times> addr \<times> bool \<Rightarrow> bool" where
  after_task:
    "shift h a = (Some (SfnObject obj), h1) \<Longrightarrow> arr h1 a \<noteq> [] \<Longrightarrow>
     chainTasks_calls (h, a, first) (h1, a, False)"
| after_choice:
    "shift h a = (Some (SfnChoice c), h1) \<Longrightarrow> addChoice h1 c first = Inr (task, h2) \<Longrightarrow>
     arr h2 a \<noteq> [] \<Longrightarrow>
     chainTasks_calls (h, a, first) (h2, a, first)"
| in_choice:
    "shift h a = (Some (SfnChoice c), h1) \<Longrightarrow> choices c = before @ choiceObj # others \<Longrightarrow>
     addChoice_when h1 (defaultFunctions c) first before = Inr (branches, h2) \<Longrightarrow>
     functions' choiceObj = Some (Functions fs) \<Longrightarrow> defaultFunctions c = Functions d \<Longrightarrow>
     chainTasks_calls (h, a, first) (h2, d, first)"

text \<open>The addresses of the arrays that a run of \<open>chainTasks\<close> on the array at \<open>a\<close> can
  come to: \<open>a\<close> itself and the \<open>defaultFunctions\<close> arrays of the choice descriptors in
  them.\<close>

inductive_set reach :: "store \<Rightarrow> addr \<Rightarrow> addr set" for h :: store and a :: addr where
  root: "a \<in> reach h a"
| nested: "x \<in> reach h a \<Longrightarrow> SfnChoice c \<in> set (arr h x) \<Longrightarrow>
     defaultFunctions c = Functions d \<Longrightarrow> d \<in> reach h a"

text \<open>Two stores agree on a set of addresses when they hold the same array at each of
  them; a set of addresses is closed in a store when it holds the \<open>defaultFunctions\<close>
  arrays of the choice descriptors of its arrays.\<close>

definition agree :: "addr set \<Rightarrow> store \<Rightarrow> store \<Rightarrow> bool" where
  "agree S h h' \<longleftrightarrow> (\<forall>x\<in>S. arr h x = arr h' x)"

definition closed :: "addr set \<Rightarrow> store \<Rightarrow> bool" where
  "closed S h \<longleftrightarrow>
     (\<forall>x\<in>S. \<forall>c d. SfnChoice c \<in> set (arr h x) \<longrightarrow> defaultFunctions c = Functions d \<longrightarrow> d \<in> S)"

text \<open>The outcome of a run: the error thrown or the value returned, without the store
  that the run leaves. Two runs end alike on \<open>S\<close> when they throw the same error, or
  return the same value and leave stores that agree on \<open>S\<close>.\<close>

definition outcome :: "error + 'a \<times> store \<Rightarrow> error + 'a" where
  "outcome r = map_sum id fst r"

definition alike :: "addr set \<Rightarrow> error + 'a \<times> store \<Rightarrow> error + 'a \<times> store \<Rightarrow> bool" where
  "alike S r r' \<longleftrightarrow>
     (case r of
        Inl e \<Rightarrow> r' = Inl e
      | Inr (v, h1) \<Rightarrow> (\<exists>h1'. r' = Inr (v, h1') \<and> agree S h1 h1'))"

section \<open>Example configurations\<close>

definition taskA :: ISfnObject where
  "taskA = \<lparr>name = ''A'', function_ref = ''fnA'', obj_config = None\<rparr>"

definition taskB :: ISfnObject where
  "taskB = \<lparr>name = ''B'', function_ref = ''fnB'',
     obj_config = Some \<lparr>retryInterval = 5, retryAttempts = 3, errors = [''States.TaskFailed'']\<rparr>\<rparr>"

definition taskX :: ISfnObject where
  "taskX = \<lparr>name = ''X'', function_ref = ''fnX'', obj_config = None\<rparr>"

definition taskY :: ISfnObject where
  "taskY = \<lparr>name = ''Y'', function_ref = ''fnY'', obj_config = None\<rparr>"

text \<open>A choice with one branch, whose own functions are the array at address 2, and a
  choice with two branches, whose own functions are the arrays at addresses 2 and 3. The
  \<open>defaultFunctions\<close> of both is the array at address 1.\<close>

definition oneBranch :: ISfnChoice where
  "oneBranch = \<lparr>choiceName = ''route'',
     choices = [\<lparr>condition = ''isSmall'', functions' = Some (Functions 2)\<rparr>],
     defaultFunctions = Functions 1\<rparr>"

definition twoBranches :: ISfnChoice where
  "twoBranches = \<lparr>choiceName = ''route'',
     choices = [\<lparr>condition = ''isSmall'', functions' = Some (Functions 2)\<rparr>,
                \<lparr>condition = ''isLarge'', functions' = Some (Functions 3)\<rparr>],
     defaultFunctions = Functions 1\<rparr>"

definition handlerProps :: SerialSfnProps where
  "handlerProps = \<lparr>lambdaFunctions = 0,
     errorHandler = Some \<lparr>handler_name = ''onError'', handler_function = ''fnError'',
                            handler_errors = [''States.ALL'']\<rparr>,
     stateMachineName = ''serial''\<rparr>"

text \<open>The construct that the constructor builds from \<open>handlerProps\<close> and the list of
  \<open>taskA\<close> alone, under the identifier \<^verbatim>\<open>serial\<close>.\<close>

definition builtSerial :: SerialSfnConstruct where
  "builtSerial =
     \<lparr>parallel = Some
        \<lparr>parallel_id = ''paralle-serial'',
         branch = [Task (LambdaInvoke ''A''
                     \<lparr>lambdaFunction = ''fnA'', inputPath = None,
                      retryOnServiceExceptions = False\<rparr> [])],
         catches = [(LambdaInvoke ''onError''
                       \<lparr>lambdaFunction = ''fnError'', inputPath = None,
                        retryOnServiceExceptions = False\<rparr> [],
                     \<lparr>catch_errors = [''States.ALL''], resultPath = ''$.error''\<rparr>)]\<rparr>,
      logGroup = Some
        \<lparr>logGroup_id = ''logGroup-serial'',
         logGroupName = ''/aws/vendedlogs/states/serial'',
         removalPolicy = DESTROY\<rparr>,
      stateMachine = Some
        \<lparr>stateMachine_id = ''serial'',
         stateMachine_definition =
           \<lparr>parallel_id = ''paralle-serial'',
            branch = [Task (LambdaInvoke ''A''
                        \<lparr>lambdaFunction = ''fnA'', inputPath = None,
                         retryOnServiceExceptions = False\<rparr> [])],
            catches = [(LambdaInvoke ''onError''
                          \<lparr>lambdaFunction = ''fnError'', inputPath = None,
                           retryOnServiceExceptions = False\<rparr> [],
                        \<lparr>catch_errors = [''States.ALL''], resultPath = ''$.error''\<rparr>)]\<rparr>,
         stateMachine_name = ''serial'',
         logs_destination =
           \<lparr>logGroup_id = ''logGroup-serial'',
            logGroupName = ''/aws/vendedlogs/states/serial'',
            removalPolicy = DESTROY\<rparr>,
         logs_level = LogLevel_ALL\<rparr>\<rparr>"

section \<open>Termination\<close>

lemma consumed_refl: "consumed h h"
  unfolding consumed_def by (metis drop0)

lemma consumed_trans: "consumed h h1 \<Longrightarrow> consumed h1 h2 \<Longrightarrow> consumed h h2"
  unfolding consumed_def
  by (metis drop_drop)

lemma arr_update: "arr (h[a := xs]) b = (if b = a \<and> a < length h then xs else arr h b)"
  by (simp add: arr_def)

lemma consumed_shift: "shift h a = (x, h1) \<Longrightarrow> consumed h h1"
proof (cases "arr h a")
  case Nil
  assume "shift h a = (x, h1)"
  with Nil have "h1 = h" by (simp add: shift_def)
  then show ?thesis by (simp add: consumed_refl)
next
  case (Cons d rest)
  assume "shift h a = (x, h1)"
  with Cons have h1: "h1 = h[a := rest]" by (simp add: shift_def)
  have "\<exists>k. arr h1 b = drop k (arr h b)" for b
  proof (cases "b = a \<and> a < length h")
    case True
    then have "arr h1 b = drop 1 (arr h b)" using Cons h1 by (simp add: arr_update)
    then show ?thesis ..
  next
    case False
    then have "arr h1 b = drop 0 (arr h b)" using h1 by (auto simp add: arr_update)
    then show ?thesis ..
  qed
  then show ?thesis by (simp add: consumed_def h1)
qed

lemma consumed_size: "consumed h h' \<Longrightarrow> store_size h' \<le> store_size h"
  unfolding consumed_def store_size_def arr_def
  apply (rule sum_list_mono2)
   apply simp
  apply (auto)
  by (metis diff_le_self length_drop)

lemma shift_size: "(Some d, h1) = shift h a \<Longrightarrow> store_size h1 < store_size h"
proof -
  assume s: "(Some d, h1) = shift h a"
  then obtain rest where a: "a < length h" and e: "h ! a = d # rest" and h1: "h1 = h[a := rest]"
    unfolding shift_def arr_def by (auto split: list.splits if_splits)
  have "length (h ! a) \<le> sum_list (map length h)"
    using a by (simp add: member_le_sum_list)
  then show ?thesis
    using a e h1 unfolding store_size_def by (simp add: map_update sum_list_update)
qed

lemma consumed_dom:
  "chainTasks_addChoice_addChoice_when_dom (Inl (h, a, f)) \<Longrightarrow>
     (\<forall>c h'. chainTasks h a f = Inr (c, h') \<longrightarrow> consumed h h')"
  "chainTasks_addChoice_addChoice_when_dom (Inr (Inl (h2, ch, f2))) \<Longrightarrow>
     (\<forall>c h'. addChoice h2 ch f2 = Inr (c, h') \<longrightarrow> consumed h2 h')"
  "chainTasks_addChoice_addChoice_when_dom (Inr (Inr (h3, d, f3, cs))) \<Longrightarrow>
     (\<forall>bs h'. addChoice_when h3 d f3 cs = Inr (bs, h') \<longrightarrow> consumed h3 h')"
proof (induct rule: chainTasks_addChoice_addChoice_when.pinduct)
  case (1 h a first)
  show ?case
  proof (intro allI impI)
    fix c h' assume r: "chainTasks h a first = Inr (c, h')"
    obtain x h1 where s: "shift h a = (x, h1)" by (cases "shift h a")
    have c1: "consumed h h1" using s by (rule consumed_shift)
    show "consumed h h'"
    proof (cases x)
      case None
      with r s 1(1) show ?thesis by (simp add: chainTasks.psimps)
    next
      case (Some d)
      show ?thesis
      proof (cases d)
        case (SfnObject obj)
        show ?thesis
        proof (cases "arr h1 a = []")
          case True
          with r s 1(1) Some SfnObject c1 show ?thesis by (simp add: chainTasks.psimps)
        next
          case False
          with r s 1(1) Some SfnObject obtain rest where
            "chainTasks h1 a False = Inr (rest, h')"
            by (auto simp: chainTasks.psimps split: sum.splits)
          moreover have "\<forall>c h'. chainTasks h1 a False = Inr (c, h') \<longrightarrow> consumed h1 h'"
            using 1(2)[of x h1 d obj] s Some SfnObject False by simp
          ultimately show ?thesis using c1 consumed_trans by blast
        qed
      next
        case (SfnChoice ch)
        from r s 1(1) Some SfnChoice obtain task h2 where
          ac: "addChoice h1 ch first = Inr (task, h2)"
          by (auto simp: chainTasks.psimps split: sum.splits)
        have "\<forall>c h'. addChoice h1 ch first = Inr (c, h') \<longrightarrow> consumed h1 h'"
          using 1(3)[of x h1 d ch] s Some SfnChoice by simp
        with ac have c2: "consumed h1 h2" by blast
        show ?thesis
        proof (cases "arr h2 a = []")
          case True
          with r s 1(1) Some SfnChoice ac have "h' = h2" by (simp add: chainTasks.psimps)
          with c1 c2 show ?thesis using consumed_trans by blast
        next
          case False
          with r s 1(1) Some SfnChoice ac obtain rest where
            "chainTasks h2 a first = Inr (rest, h')"
            by (auto simp: chainTasks.psimps split: sum.splits)
          moreover have "\<forall>c h'. chainTasks h2 a first = Inr (c, h') \<longrightarrow> consumed h2 h'"
            using 1(4)[of x h1 d ch "(task, h2)" task h2] s Some SfnChoice ac False by simp
          ultimately show ?thesis using c1 c2 consumed_trans by blast
        qed
      qed
    qed
  qed
next
  case (2 h choice first)
  then show ?case
    by (auto simp: addChoice.psimps consumed_refl split: sum.splits if_splits)
next
  case (3 h dflt first)
  then show ?case by (simp add: addChoice_when.psimps consumed_refl)
next
  case (4 h dflt first choiceObj others)
  show ?case
  proof (intro allI impI)
    fix bs h' assume r: "addChoice_when h dflt first (choiceObj # others) = Inr (bs, h')"
    show "consumed h h'"
    proof (cases "functions' choiceObj")
      case None
      with r 4(1) show ?thesis by (simp add: addChoice_when.psimps)
    next
      case (Some fs)
      show ?thesis
      proof (cases fs)
        case (PassState p)
        with r 4(1) Some obtain bs' where "addChoice_when h dflt first others = Inr (bs', h')"
          by (auto simp: addChoice_when.psimps split: sum.splits)
        then show ?thesis using 4(4)[of fs p] Some PassState by blast
      next
        case (Functions x)
        show ?thesis
        proof (cases dflt)
          case (PassState p)
          with r 4(1) Some Functions show ?thesis by (simp add: addChoice_when.psimps)
        next
          case df: (Functions da)
          with r 4(1) Some Functions obtain body h1 bs' where
            ct: "chainTasks h da first = Inr (body, h1)"
            and aw: "addChoice_when h1 dflt first others = Inr (bs', h')"
            by (auto simp: addChoice_when.psimps split: sum.splits)
          have "consumed h h1" using 4(2)[of fs x da] Some Functions df ct by blast
          moreover have "consumed h1 h'"
            using 4(3)[of fs x da "(body, h1)" body h1] Some Functions df ct aw by blast
          ultimately show ?thesis by (rule consumed_trans)
        qed
      qed
    qed
  qed
qed

lemma chainTasks_total: "All chainTasks_addChoice_addChoice_when_dom"
proof (relation "measures [\<lambda>x. case x of Inl (h, a, f) \<Rightarrow> store_size h
                                   | Inr (Inl (h, c, f)) \<Rightarrow> store_size h
                                   | Inr (Inr (h, d, f, cs)) \<Rightarrow> store_size h,
                            \<lambda>x. case x of Inl (h, a, f) \<Rightarrow> 0
                                   | Inr (Inl (h, c, f)) \<Rightarrow> length (choices c) + 2
                                   | Inr (Inr (h, d, f, cs)) \<Rightarrow> length cs + 1]", goal_cases)
  case 1
  then show ?case by simp
next
  case (2 h a first x y x2 x1)
  then show ?case using shift_size[of x2 y h a] by auto
next
  case (3 h a first x y x2 x2a)
  then show ?case using shift_size[of x2 y h a] by auto
next
  case (4 h a first x y x2 x2a b xa ya)
  then show ?case using shift_size[of x2 y h a] consumed_dom(2)[of y x2a first] consumed_size[of y ya] by auto
next
  case (5 h choice first)
  then show ?case by simp
next
  case (6 h dflt first choiceObj others x2 x1 x1a)
  then show ?case by simp
next
  case (7 h dflt first choiceObj others x2 x1 x1a b x y)
  then show ?case using consumed_dom(1)[of h x1a first] consumed_size[of h y] by auto
next
  case (8 h dflt first choiceObj others x2 x2a)
  then show ?case by simp
qed

termination chainTasks
  by (rule chainTasks_total)

section \<open>Unfolding a run\<close>

declare chainTasks.simps [simp del] addChoice.simps [simp del]

lemma shift_Nil: "arr h a = [] \<Longrightarrow> shift h a = (None, h)"
  by (simp add: shift_def)

lemma shift_Cons: "arr h a = d # rest \<Longrightarrow> shift h a = (Some d, h[a := rest])"
  by (simp add: shift_def)

lemma arr_shifted: "arr h a = d # rest \<Longrightarrow> arr (h[a := rest]) b = (if b = a then rest else arr h b)"
  by (auto simp: arr_def split: if_splits)

lemma chainTasks_Nil: "arr h a = [] \<Longrightarrow> chainTasks h a first = Inl UndefinedDescriptor"
  by (simp add: chainTasks.simps shift_Nil)

lemma chainTasks_SfnObject:
  "arr h a = SfnObject obj # rest \<Longrightarrow>
   chainTasks h a first =
     (if rest \<noteq> []
      then (case chainTasks (h[a := rest]) a False of
              Inl e \<Rightarrow> Inl e
            | Inr (c, h') \<Rightarrow> Inr (Next (Task (lambdaTask obj first)) c, h'))
      else Inr (Task (lambdaTask obj first), h[a := rest]))"
  by (simp add: chainTasks.simps[of h a] shift_Cons arr_shifted)

lemma chainTasks_SfnChoice:
  "arr h a = SfnChoice ch # rest \<Longrightarrow>
   chainTasks h a first =
     (case addChoice (h[a := rest]) ch first of
        Inl e \<Rightarrow> Inl e
      | Inr (task, h2) \<Rightarrow>
          if arr h2 a \<noteq> []
          then (case chainTasks h2 a first of
                  Inl e \<Rightarrow> Inl e
                | Inr (c, h') \<Rightarrow> Inr (Next task c, h'))
          else Inr (task, h2))"
  by (simp add: chainTasks.simps[of h a] shift_Cons)

lemma chainTasks_returns_nonempty: "chainTasks h a first = Inr r \<Longrightarrow> arr h a \<noteq> []"
  using chainTasks_Nil by fastforce

lemma chainTasks_leaves_empty: "chainTasks h a first = Inr (c, h') \<Longrightarrow> arr h' a = []"
proof (induction h a first arbitrary: c h'
    rule: chainTasks_addChoice_addChoice_when.induct(1)
      [where Q = "\<lambda>_ _ _. True" and R = "\<lambda>_ _ _ _. True"])
  case (1 h a first)
  note run = "1.prems"
  from run have ne: "arr h a \<noteq> []" by (rule chainTasks_returns_nonempty)
  then obtain d rest where dr: "arr h a = d # rest" by (cases "arr h a") auto
  then have s: "(Some d, h[a := rest]) = shift h a" by (simp add: shift_Cons)
  show ?case
  proof (cases d)
    case (SfnObject obj)
    show ?thesis
    proof (cases "rest = []")
      case True
      with run dr SfnObject show ?thesis
        by (auto simp: chainTasks_SfnObject arr_shifted)
    next
      case False
      with run dr SfnObject obtain c' where "chainTasks (h[a := rest]) a False = Inr (c', h')"
        by (auto simp: chainTasks_SfnObject split: sum.splits)
      moreover have "arr (h[a := rest]) a \<noteq> []" using False dr by (simp add: arr_shifted)
      ultimately show ?thesis
        using "1.IH"(1)[of "Some d" "h[a := rest]" d obj c' h'] s SfnObject by simp
    qed
  next
    case (SfnChoice ch)
    with run dr obtain task h2 where ac: "addChoice (h[a := rest]) ch first = Inr (task, h2)"
      by (auto simp: chainTasks_SfnChoice split: sum.splits)
    show ?thesis
    proof (cases "arr h2 a = []")
      case True
      with run dr SfnChoice ac show ?thesis by (simp add: chainTasks_SfnChoice)
    next
      case False
      with run dr SfnChoice ac obtain c' where "chainTasks h2 a first = Inr (c', h')"
        by (auto simp: chainTasks_SfnChoice split: sum.splits)
      then show ?thesis
        using "1.IH"(2)[of "Some d" "h[a := rest]" d ch "(task, h2)" task h2 c' h'] s SfnChoice ac False
        by simp
    qed
  qed
qed simp_all

lemma consumed_chainTasks: "chainTasks h a first = Inr (c, h') \<Longrightarrow> consumed h h'"
  using consumed_dom(1) chainTasks_total by blast

lemma consumed_addChoice: "addChoice h ch first = Inr (c, h') \<Longrightarrow> consumed h h'"
  using consumed_dom(2) chainTasks_total by blast

lemma consumed_addChoice_when: "addChoice_when h d first cs = Inr (bs, h') \<Longrightarrow> consumed h h'"
  using consumed_dom(3) chainTasks_total by blast

lemma consumed_Nil: "consumed h h' \<Longrightarrow> arr h a = [] \<Longrightarrow> arr h' a = []"
  unfolding consumed_def by (metis drop_Nil)

lemma consumed_length: "consumed h h' \<Longrightarrow> length (arr h' a) \<le> length (arr h a)"
  unfolding consumed_def by (metis diff_le_self length_drop)

lemma addChoice_when_leaves_empty:
  "addChoice_when h (Functions d) first cs = Inr (bs, h') \<Longrightarrow>
   \<exists>e\<in>set cs. \<exists>fs. functions' e = Some (Functions fs) \<Longrightarrow> arr h' d = []"
proof (induction cs arbitrary: h bs)
  case Nil
  then show ?case by simp
next
  case (Cons e cs)
  show ?case
  proof (cases "functions' e")
    case None
    with Cons.prems show ?thesis by simp
  next
    case (Some f)
    show ?thesis
    proof (cases f)
      case (PassState p)
      with Cons.prems Some obtain bs' where "addChoice_when h (Functions d) first cs = Inr (bs', h')"
        by (auto split: sum.splits)
      moreover have "\<exists>e\<in>set cs. \<exists>fs. functions' e = Some (Functions fs)"
        using Cons.prems(2) Some PassState by auto
      ultimately show ?thesis by (rule Cons.IH)
    next
      case (Functions fs)
      with Cons.prems Some obtain body h1 bs' where
        ct: "chainTasks h d first = Inr (body, h1)" and
        aw: "addChoice_when h1 (Functions d) first cs = Inr (bs', h')"
        by (auto split: sum.splits)
      from ct have "arr h1 d = []" by (rule chainTasks_leaves_empty)
      with aw show ?thesis using consumed_addChoice_when consumed_Nil by blast
    qed
  qed
qed

lemma addChoice_leaves_empty:
  "addChoice h ch first = Inr (c, h') \<Longrightarrow> defaultFunctions ch = Functions d \<Longrightarrow>
   \<exists>e\<in>set (choices ch). \<exists>fs. functions' e = Some (Functions fs) \<Longrightarrow> arr h' d = []"
  by (auto simp: addChoice.simps split: if_splits sum.splits dest: addChoice_when_leaves_empty)


section \<open>Lists of task descriptors\<close>

text \<open>
  What \<open>chainTasks\<close> makes of a list that holds task descriptors only. In the model such
  a run always returns; of the code these lemmas say what the chain is when the run
  returns.
\<close>

lemma task_retries_lambdaTask:
  "task_retries (lambdaTask obj first) =
     (case obj_config obj of None \<Rightarrow> [] | Some cfg \<Rightarrow> [config cfg])"
  by (simp add: lambdaTask_def addRetry_def Let_def split: option.splits)

lemma task_id_lambdaTask: "task_id (lambdaTask obj first) = name obj"
  by (simp add: lambdaTask_def addRetry_def Let_def split: option.splits)

lemma task_props_lambdaTask:
  "task_props (lambdaTask obj first) =
     \<lparr>lambdaFunction = function_ref obj,
      inputPath = (if first then None else Some ''$.Payload''),
      retryOnServiceExceptions = False\<rparr>"
  by (simp add: lambdaTask_def addRetry_def Let_def split: option.splits)

lemma chainTasks_task_list:
  "arr h a = map SfnObject (obj # objs) \<Longrightarrow>
   \<exists>c h'. chainTasks h a first = Inr (c, h') \<and>
     tasks_of c = lambdaTask obj first # map (\<lambda>obj. lambdaTask obj False) objs"
proof (induction objs arbitrary: h obj first)
  case Nil
  then show ?case by (simp add: chainTasks_SfnObject)
next
  case (Cons obj' objs)
  let ?rest = "map SfnObject (obj' # objs)"
  from Cons.prems have dr: "arr h a = SfnObject obj # ?rest" by simp
  then have "arr (h[a := ?rest]) a = ?rest" by (simp add: arr_shifted)
  from Cons.IH[OF this, of False] obtain c h' where
    "chainTasks (h[a := ?rest]) a False = Inr (c, h')"
    "tasks_of c = lambdaTask obj' False # map (\<lambda>obj. lambdaTask obj False) objs"
    by blast
  then show ?case by (simp add: chainTasks_SfnObject[OF dr])
qed

lemma task_list_inputPath:
  assumes "arr h a = map SfnObject (obj # objs)"
  shows "\<exists>c h'. chainTasks h a first = Inr (c, h') \<and>
     map (inputPath \<circ> task_props) (tasks_of c) =
       (if first then None else Some ''$.Payload'') # replicate (length objs) (Some ''$.Payload'')"
proof -
  from assms obtain c h' where
    r: "chainTasks h a first = Inr (c, h')" and
    t: "tasks_of c = lambdaTask obj first # map (\<lambda>obj. lambdaTask obj False) objs"
    using chainTasks_task_list by blast
  have "map (inputPath \<circ> task_props) (tasks_of c) =
       (if first then None else Some ''$.Payload'') # replicate (length objs) (Some ''$.Payload'')"
    by (simp add: t task_props_lambdaTask comp_def map_replicate_const)
  with r show ?thesis by (intro exI[of _ c] exI[of _ h'] conjI)
qed

lemma task_list_retries:
  assumes "arr h a = map SfnObject objs" and "objs \<noteq> []"
  shows "\<exists>c h'. chainTasks h a first = Inr (c, h') \<and>
     map task_id (tasks_of c) = map name objs \<and>
     map task_retries (tasks_of c) =
       map (\<lambda>obj. case obj_config obj of
                    None \<Rightarrow> []
                  | Some cfg \<Rightarrow> [\<lparr>interval = retryInterval cfg,
                                 maxAttempts = retryAttempts cfg,
                                 retry_errors = errors cfg\<rparr>]) objs"
proof -
  from assms(2) obtain obj rest where objs: "objs = obj # rest" by (cases objs) auto
  with assms(1) obtain c h' where
    r: "chainTasks h a first = Inr (c, h')" and
    t: "tasks_of c = lambdaTask obj first # map (\<lambda>obj. lambdaTask obj False) rest"
    using chainTasks_task_list by blast
  have "map task_id (tasks_of c) = map name objs"
    by (simp add: t objs task_id_lambdaTask)
  moreover have "map task_retries (tasks_of c) =
       map (\<lambda>obj. case obj_config obj of
                    None \<Rightarrow> []
                  | Some cfg \<Rightarrow> [\<lparr>interval = retryInterval cfg,
                                 maxAttempts = retryAttempts cfg,
                                 retry_errors = errors cfg\<rparr>]) objs"
    by (simp add: t objs task_retries_lambdaTask config_def split: option.splits)
  ultimately show ?thesis using r by blast
qed

lemma built_from_consumed: "consumed h h1 \<Longrightarrow> built_from h1 t \<Longrightarrow> built_from h t"
  unfolding built_from_def consumed_def by (metis in_set_dropD)

lemma built_from_runs:
  "\<forall>c h'. chainTasks h a first = Inr (c, h') \<longrightarrow> (\<forall>t\<in>set (all_tasks c). built_from h t)"
  "\<forall>c h'. addChoice h2 ch first2 = Inr (c, h') \<longrightarrow> (\<forall>t\<in>set (all_tasks c). built_from h2 t)"
  "\<forall>bs h'. addChoice_when h3 dflt first3 cs = Inr (bs, h') \<longrightarrow>
     (\<forall>b\<in>set bs. \<forall>t\<in>set (target_tasks (snd b)). built_from h3 t)"
proof (induction h a first and h2 ch first2 and h3 dflt first3 cs
    rule: chainTasks_addChoice_addChoice_when.induct)
  case (1 h a first)
  show ?case
  proof (intro allI impI)
    fix c h' assume run: "chainTasks h a first = Inr (c, h')"
    then have "arr h a \<noteq> []" by (rule chainTasks_returns_nonempty)
    then obtain d rest where Cons: "arr h a = d # rest" by (cases "arr h a") auto
    let ?h1 = "h[a := rest]"
    have s: "(Some d, ?h1) = shift h a" using Cons by (simp add: shift_Cons)
    have c1: "consumed h ?h1" using s consumed_shift[of h a "Some d" ?h1] by simp
    have a1: "arr ?h1 a = rest" using Cons by (simp add: arr_shifted)
    show "\<forall>t\<in>set (all_tasks c). built_from h t"
    proof (cases d)
      case (SfnObject obj)
      have here: "built_from h (lambdaTask obj first)"
        unfolding built_from_def using Cons SfnObject by (metis list.set_intros(1))
      show ?thesis
      proof (cases "rest = []")
        case True
        with run Cons SfnObject here show ?thesis by (auto simp: chainTasks_SfnObject)
      next
        case False
        with run Cons SfnObject obtain c' where
          r: "chainTasks ?h1 a False = Inr (c', h')" and c: "c = Next (Task (lambdaTask obj first)) c'"
          by (auto simp: chainTasks_SfnObject split: sum.splits)
        from False a1 have "arr ?h1 a \<noteq> []" by simp
        from "1.IH"(1)[OF s refl SfnObject this] r
        have "\<forall>t\<in>set (all_tasks c'). built_from ?h1 t" by blast
        with c1 have "\<forall>t\<in>set (all_tasks c'). built_from h t" using built_from_consumed by blast
        with c here show ?thesis by auto
      qed
    next
      case (SfnChoice ch)
      with run Cons obtain task h2 where ac: "addChoice ?h1 ch first = Inr (task, h2)"
        by (auto simp: chainTasks_SfnChoice split: sum.splits)
      from "1.IH"(2)[OF s refl SfnChoice] ac
      have "\<forall>t\<in>set (all_tasks task). built_from ?h1 t" by blast
      with c1 have t1: "\<forall>t\<in>set (all_tasks task). built_from h t" using built_from_consumed by blast
      from ac have c2: "consumed ?h1 h2" by (rule consumed_addChoice)
      show ?thesis
      proof (cases "arr h2 a = []")
        case True
        with run Cons SfnChoice ac have "c = task" by (simp add: chainTasks_SfnChoice)
        with t1 show ?thesis by simp
      next
        case False
        with run Cons SfnChoice ac obtain c' where
          r: "chainTasks h2 a first = Inr (c', h')" and c: "c = Next task c'"
          by (auto simp: chainTasks_SfnChoice split: sum.splits)
        from "1.IH"(3)[OF s refl SfnChoice ac refl False] r
        have "\<forall>t\<in>set (all_tasks c'). built_from h2 t" by blast
        with c1 c2 have "\<forall>t\<in>set (all_tasks c'). built_from h t"
          using built_from_consumed by blast
        with c t1 show ?thesis by auto
      qed
    qed
  qed
next
  case (2 h choice first)
  show ?case
  proof (cases "choices choice = []")
    case True
    then show ?thesis by (simp add: addChoice.simps)
  next
    case False
    with "2.IH"[OF False] show ?thesis
      by (auto simp: addChoice.simps split: sum.splits)
  qed
next
  case (3 h dflt first)
  show ?case by simp
next
  case (4 h dflt first choiceObj others)
  show ?case
  proof (intro allI impI)
    fix bs h' assume run: "addChoice_when h dflt first (choiceObj # others) = Inr (bs, h')"
    show "\<forall>b\<in>set bs. \<forall>t\<in>set (target_tasks (snd b)). built_from h t"
    proof (cases "functions' choiceObj")
      case None
      with run show ?thesis by simp
    next
      case (Some f)
      show ?thesis
      proof (cases f)
        case (PassState p)
        with run Some obtain bs' where
          r: "addChoice_when h dflt first others = Inr (bs', h')" and
          bs: "bs = (condition choiceObj, Given dflt) # bs'"
          by (auto split: sum.splits)
        from "4.IH"(3)[OF Some PassState] r
        have "\<forall>b\<in>set bs'. \<forall>t\<in>set (target_tasks (snd b)). built_from h t" by blast
        with bs show ?thesis by simp
      next
        case (Functions fs)
        show ?thesis
        proof (cases dflt)
          case (PassState p)
          with run Some Functions show ?thesis by simp
        next
          case df: (Functions d)
          with run Some Functions obtain body h1 bs' where
            ct: "chainTasks h d first = Inr (body, h1)" and
            r: "addChoice_when h1 dflt first others = Inr (bs', h')" and
            bs: "bs = (condition choiceObj, Built body) # bs'"
            by (auto split: sum.splits)
          from "4.IH"(1)[OF Some Functions df] ct
          have b1: "\<forall>t\<in>set (all_tasks body). built_from h t" by blast
          from ct have "consumed h h1" by (rule consumed_chainTasks)
          moreover from "4.IH"(2)[OF Some Functions df ct refl] r
          have "\<forall>b\<in>set bs'. \<forall>t\<in>set (target_tasks (snd b)). built_from h1 t" by blast
          ultimately have "\<forall>b\<in>set bs'. \<forall>t\<in>set (target_tasks (snd b)). built_from h t"
            using built_from_consumed by blast
          with bs b1 show ?thesis by simp
        qed
      qed
    qed
  qed
qed


text \<open>
  C6. Whenever \<open>chainTasks\<close> returns a chain for a list of task descriptors, the chain
  has one Lambda task for each descriptor, in the order of the list and under the
  descriptor's name, and the retries of that task are: none when the descriptor has no
  \<open>config\<close>, and otherwise exactly one, whose interval is \<open>config.retryInterval\<close>, whose
  maxAttempts is \<open>config.retryAttempts\<close> and whose errors are \<open>config.errors\<close>. In the
  chain that any run of \<open>chainTasks\<close> returns, every Lambda task, inside the branches of
  choices too, is the task of a task descriptor of the store and has these retries.
\<close>

theorem retry_iff_config:
  "(arr h a = map SfnObject objs \<and> chainTasks h a first = Inr (c, h') \<longrightarrow>
      map task_id (tasks_of c) = map name objs \<and>
      map task_retries (tasks_of c) =
        map (\<lambda>obj. case obj_config obj of
                     None \<Rightarrow> []
                   | Some cfg \<Rightarrow> [\<lparr>interval = retryInterval cfg,
                                  maxAttempts = retryAttempts cfg,
                                  retry_errors = errors cfg\<rparr>]) objs) \<and>
   (chainTasks g b first' = Inr (c', g') \<longrightarrow>
      (\<forall>t\<in>set (all_tasks c'). \<exists>obj a'.
         SfnObject obj \<in> set (arr g a') \<and> task_id t = name obj \<and>
         task_retries t =
           (case obj_config obj of
              None \<Rightarrow> []
            | Some cfg \<Rightarrow> [\<lparr>interval = retryInterval cfg,
                           maxAttempts = retryAttempts cfg,
                           retry_errors = errors cfg\<rparr>])))"
proof (intro conjI impI ballI)
  assume a: "arr h a = map SfnObject objs \<and> chainTasks h a first = Inr (c, h')"
  then have "arr h a \<noteq> []" using chainTasks_returns_nonempty by blast
  with a have "objs \<noteq> []" by auto
  with a obtain c0 h0 where
    r: "chainTasks h a first = Inr (c0, h0)" and
    i: "map task_id (tasks_of c0) = map name objs" and
    t: "map task_retries (tasks_of c0) =
        map (\<lambda>obj. case obj_config obj of
                     None \<Rightarrow> []
                   | Some cfg \<Rightarrow> [\<lparr>interval = retryInterval cfg,
                                  maxAttempts = retryAttempts cfg,
                                  retry_errors = errors cfg\<rparr>]) objs"
    using task_list_retries[of h a objs first] by blast
  from a r have "c0 = c" by simp
  with i t show "map task_id (tasks_of c) = map name objs"
    and "map task_retries (tasks_of c) =
        map (\<lambda>obj. case obj_config obj of
                     None \<Rightarrow> []
                   | Some cfg \<Rightarrow> [\<lparr>interval = retryInterval cfg,
                                  maxAttempts = retryAttempts cfg,
                                  retry_errors = errors cfg\<rparr>]) objs"
    by simp_all
next
  fix t assume "chainTasks g b first' = Inr (c', g')" and "t \<in> set (all_tasks c')"
  then have "built_from g t" using built_from_runs(1) by blast
  then obtain obj f a' where o: "SfnObject obj \<in> set (arr g a')" and t: "t = lambdaTask obj f"
    unfolding built_from_def by blast
  have "task_id t = name obj" by (simp add: t task_id_lambdaTask)
  moreover have "task_retries t =
           (case obj_config obj of
              None \<Rightarrow> []
            | Some cfg \<Rightarrow> [\<lparr>interval = retryInterval cfg,
                           maxAttempts = retryAttempts cfg,
                           retry_errors = errors cfg\<rparr>])"
    by (simp add: t task_retries_lambdaTask config_def split: option.splits)
  ultimately show "\<exists>obj a'.
         SfnObject obj \<in> set (arr g a') \<and> task_id t = name obj \<and>
         task_retries t =
           (case obj_config obj of
              None \<Rightarrow> []
            | Some cfg \<Rightarrow> [\<lparr>interval = retryInterval cfg,
                           maxAttempts = retryAttempts cfg,
                           retry_errors = errors cfg\<rparr>])"
    using o by blast
qed

theorem retry_iff_config_witness:
  "arr [[SfnObject taskA, SfnObject taskB]] 0 = map SfnObject [taskA, taskB] \<and>
   chainTasks [[SfnObject taskA, SfnObject taskB]] 0 True =
     Inr (Next (Task (LambdaInvoke ''A''
                  \<lparr>lambdaFunction = ''fnA'', inputPath = None, retryOnServiceExceptions = False\<rparr> []))
               (Task (LambdaInvoke ''B''
                  \<lparr>lambdaFunction = ''fnB'', inputPath = Some ''$.Payload'',
                   retryOnServiceExceptions = False\<rparr>
                  [\<lparr>interval = 5, maxAttempts = 3, retry_errors = [''States.TaskFailed'']\<rparr>])),
          [[]]) \<and>
   map name [taskA, taskB] = [''A'', ''B''] \<and>
   map (\<lambda>obj. case obj_config obj of
                None \<Rightarrow> []
              | Some cfg \<Rightarrow> [\<lparr>interval = retryInterval cfg,
                             maxAttempts = retryAttempts cfg,
                             retry_errors = errors cfg\<rparr>]) [taskA, taskB] =
     [[], [\<lparr>interval = 5, maxAttempts = 3, retry_errors = [''States.TaskFailed'']\<rparr>]] \<and>
   chainTasks [[SfnChoice oneBranch], [SfnObject taskB], [SfnObject taskY]] 0 False =
     Inr (Afterwards ''route''
           [(''isSmall'',
             Built (Task (LambdaInvoke ''B''
                      \<lparr>lambdaFunction = ''fnB'', inputPath = Some ''$.Payload'',
                       retryOnServiceExceptions = False\<rparr>
                      [\<lparr>interval = 5, maxAttempts = 3, retry_errors = [''States.TaskFailed'']\<rparr>])))],
          [[], [], [SfnObject taskY]]) \<and>
   (\<exists>obj a'. SfnObject obj \<in> set (arr [[SfnChoice oneBranch], [SfnObject taskB], [SfnObject taskY]] a') \<and>
      ''B'' = name obj \<and>
      [\<lparr>interval = 5, maxAttempts = 3, retry_errors = [''States.TaskFailed'']\<rparr>] =
        (case obj_config obj of
           None \<Rightarrow> []
         | Some cfg \<Rightarrow> [\<lparr>interval = retryInterval cfg,
                        maxAttempts = retryAttempts cfg,
                        retry_errors = errors cfg\<rparr>]))"
proof -
  let ?h = "[[SfnObject taskA, SfnObject taskB]]"
  let ?g = "[[SfnChoice oneBranch], [SfnObject taskB], [SfnObject taskY]]"
  let ?tA = "LambdaInvoke ''A''
              \<lparr>lambdaFunction = ''fnA'', inputPath = None, retryOnServiceExceptions = False\<rparr> []"
  let ?tB = "LambdaInvoke ''B''
              \<lparr>lambdaFunction = ''fnB'', inputPath = Some ''$.Payload'',
               retryOnServiceExceptions = False\<rparr>
              [\<lparr>interval = 5, maxAttempts = 3, retry_errors = [''States.TaskFailed'']\<rparr>]"
  let ?c = "Next (Task ?tA) (Task ?tB)"
  let ?c' = "Afterwards ''route'' [(''isSmall'', Built (Task ?tB))]"
  note inst = retry_iff_config[of ?h 0 "[taskA, taskB]" True ?c "[[]]" ?g 0 False ?c' "[[], [], [SfnObject taskY]]"]
  have a: "arr ?h 0 = map SfnObject [taskA, taskB]" by (simp add: arr_def)
  have r1: "chainTasks ?h 0 True = Inr (?c, [[]])" by code_simp
  have r2: "chainTasks ?g 0 False = Inr (?c', [[], [], [SfnObject taskY]])" by code_simp
  have m: "?tB \<in> set (all_tasks ?c')" by simp
  from inst a r1 have p1: "map task_id (tasks_of ?c) = map name [taskA, taskB] \<and>
      map task_retries (tasks_of ?c) =
        map (\<lambda>obj. case obj_config obj of
                     None \<Rightarrow> []
                   | Some cfg \<Rightarrow> [\<lparr>interval = retryInterval cfg,
                                  maxAttempts = retryAttempts cfg,
                                  retry_errors = errors cfg\<rparr>]) [taskA, taskB]"
    by blast
  from inst r2 m have p2: "\<exists>obj a'. SfnObject obj \<in> set (arr ?g a') \<and>
      task_id ?tB = name obj \<and>
      task_retries ?tB =
        (case obj_config obj of
           None \<Rightarrow> []
         | Some cfg \<Rightarrow> [\<lparr>interval = retryInterval cfg,
                        maxAttempts = retryAttempts cfg,
                        retry_errors = errors cfg\<rparr>])"
    by blast
  from a r1 p1 r2 p2 show ?thesis by simp
qed

section \<open>The overall error handler\<close>

text \<open>
  C5, as amended. Whenever the constructor returns for a non-empty list
  \<open>lambdaFunctions\<close>, it has built the chain of the list, the \<open>Parallel\<close> that holds it,
  the log group and the state machine whose definition is that \<open>Parallel\<close>. With an
  \<open>errorHandler\<close> in the props, the \<open>Parallel\<close> has exactly one catch: it invokes the
  handler's function, under the handler's name, catches the errors of
  \<open>errorHandler.errors\<close> and stores the error at \<^verbatim>\<open>$.error\<close>. Without an
  \<open>errorHandler\<close> it has no catch. For an empty list the constructor has built nothing,
  so no catch is attached, with or without an \<open>errorHandler\<close>.
\<close>

theorem overall_catch:
  "new_SerialSfnConstruct h ident props = Inr (con, h') \<longrightarrow>
     (arr h (lambdaFunctions props) \<noteq> [] \<longrightarrow>
        (\<exists>p lg sm c. con = \<lparr>parallel = Some p, logGroup = Some lg, stateMachine = Some sm\<rparr> \<and>
           stateMachine_definition sm = p \<and>
           chainTasks h (lambdaFunctions props) True = Inr (c, h') \<and> branch p = [c] \<and>
           catches p =
             (case errorHandler props of
                None \<Rightarrow> []
              | Some handler \<Rightarrow>
                  [(LambdaInvoke (handler_name handler)
                      \<lparr>lambdaFunction = handler_function handler, inputPath = None,
                       retryOnServiceExceptions = False\<rparr> [],
                    \<lparr>catch_errors = handler_errors handler, resultPath = ''$.error''\<rparr>)]))) \<and>
     (arr h (lambdaFunctions props) = [] \<longrightarrow>
        con = \<lparr>parallel = None, logGroup = None, stateMachine = None\<rparr>)"
  by (auto simp: new_SerialSfnConstruct_def addCatch_def Let_def split: option.splits sum.splits)

theorem overall_catch_witness:
  "new_SerialSfnConstruct [[SfnObject taskA]] ''serial'' handlerProps = Inr (builtSerial, [[]]) \<and>
   arr [[SfnObject taskA]] (lambdaFunctions handlerProps) \<noteq> [] \<and>
   (\<exists>p lg sm c.
      builtSerial = \<lparr>parallel = Some p, logGroup = Some lg, stateMachine = Some sm\<rparr> \<and>
      stateMachine_definition sm = p \<and>
      chainTasks [[SfnObject taskA]] (lambdaFunctions handlerProps) True = Inr (c, [[]]) \<and>
      branch p = [c] \<and>
      catches p =
        [(LambdaInvoke ''onError''
            \<lparr>lambdaFunction = ''fnError'', inputPath = None, retryOnServiceExceptions = False\<rparr> [],
          \<lparr>catch_errors = [''States.ALL''], resultPath = ''$.error''\<rparr>)])"
proof -
  have r: "new_SerialSfnConstruct [[SfnObject taskA]] ''serial'' handlerProps = Inr (builtSerial, [[]])"
    by code_simp
  have n: "arr [[SfnObject taskA]] (lambdaFunctions handlerProps) \<noteq> []"
    by (simp add: arr_def handlerProps_def)
  have e: "(case errorHandler handlerProps of
                None \<Rightarrow> []
              | Some handler \<Rightarrow>
                  [(LambdaInvoke (handler_name handler)
                      \<lparr>lambdaFunction = handler_function handler, inputPath = None,
                       retryOnServiceExceptions = False\<rparr> [],
                    \<lparr>catch_errors = handler_errors handler, resultPath = ''$.error''\<rparr>)]) =
        [(LambdaInvoke ''onError''
            \<lparr>lambdaFunction = ''fnError'', inputPath = None, retryOnServiceExceptions = False\<rparr> [],
          \<lparr>catch_errors = [''States.ALL''], resultPath = ''$.error''\<rparr>)]"
    by (simp add: handlerProps_def)
  from overall_catch[of "[[SfnObject taskA]]" "''serial''" handlerProps builtSerial "[[]]"] r n
  have "\<exists>p lg sm c. builtSerial = \<lparr>parallel = Some p, logGroup = Some lg, stateMachine = Some sm\<rparr> \<and>
           stateMachine_definition sm = p \<and>
           chainTasks [[SfnObject taskA]] (lambdaFunctions handlerProps) True = Inr (c, [[]]) \<and>
           branch p = [c] \<and>
           catches p =
             (case errorHandler handlerProps of
                None \<Rightarrow> []
              | Some handler \<Rightarrow>
                  [(LambdaInvoke (handler_name handler)
                      \<lparr>lambdaFunction = handler_function handler, inputPath = None,
                       retryOnServiceExceptions = False\<rparr> [],
                    \<lparr>catch_errors = handler_errors handler, resultPath = ''$.error''\<rparr>)])"
    by blast
  then show ?thesis unfolding e using r n by blast
qed

text \<open>
  C5 as stated fails for an empty list \<open>lambdaFunctions\<close>: the props have an
  \<open>errorHandler\<close>, and the constructor returns before the \<open>Parallel\<close> exists, so no
  catch is attached to anything.
\<close>

theorem handler_without_tasks_counterexample:
  "errorHandler handlerProps \<noteq> None \<and>
   new_SerialSfnConstruct [[]] ''serial'' handlerProps =
     Inr (\<lparr>parallel = None, logGroup = None, stateMachine = None\<rparr>, [[]])"
  by code_simp


section \<open>The input arrays are consumed\<close>

lemma addChoice_when_starts_nonempty:
  "addChoice_when h (Functions d) first cs = Inr (bs, h') \<Longrightarrow>
   \<exists>e\<in>set cs. \<exists>fs. functions' e = Some (Functions fs) \<Longrightarrow> arr h d \<noteq> []"
proof (induction cs arbitrary: bs)
  case Nil
  then show ?case by simp
next
  case (Cons e cs)
  show ?case
  proof (cases "functions' e")
    case None
    with Cons.prems show ?thesis by simp
  next
    case (Some f)
    show ?thesis
    proof (cases f)
      case (PassState p)
      with Cons.prems Some obtain bs' where "addChoice_when h (Functions d) first cs = Inr (bs', h')"
        by (auto split: sum.splits)
      moreover have "\<exists>e\<in>set cs. \<exists>fs. functions' e = Some (Functions fs)"
        using Cons.prems(2) Some PassState by auto
      ultimately show ?thesis by (rule Cons.IH)
    next
      case (Functions fs)
      with Cons.prems Some obtain r where "chainTasks h d first = Inr r"
        by (auto split: sum.splits)
      then show ?thesis by (rule chainTasks_returns_nonempty)
    qed
  qed
qed

text \<open>
  C9. \<open>chainTasks\<close> consumes the array it is given: when it returns, the array was not
  empty before the call and is empty after it. The same holds of the \<open>defaultFunctions\<close>
  array of a choice descriptor once \<open>addChoice\<close> has returned, whenever \<open>addChoice\<close> has
  passed it to \<open>chainTasks\<close>, that is, whenever an entry of \<open>choices\<close> has an array as its
  \<open>functions\<close>.
\<close>

theorem input_is_consumed:
  "(chainTasks h a first = Inr (c, h') \<longrightarrow> arr h a \<noteq> [] \<and> arr h' a = []) \<and>
   (addChoice g choice first' = Inr (c', g') \<and> defaultFunctions choice = Functions d \<and>
    (\<exists>e\<in>set (choices choice). \<exists>fs. functions' e = Some (Functions fs)) \<longrightarrow>
      arr g d \<noteq> [] \<and> arr g' d = [])"
proof (intro conjI impI)
  assume "chainTasks h a first = Inr (c, h')"
  then show "arr h a \<noteq> []" "arr h' a = []"
    by (rule chainTasks_returns_nonempty, rule chainTasks_leaves_empty)
next
  assume a: "addChoice g choice first' = Inr (c', g') \<and> defaultFunctions choice = Functions d \<and>
    (\<exists>e\<in>set (choices choice). \<exists>fs. functions' e = Some (Functions fs))"
  then show "arr g' d = []" using addChoice_leaves_empty by blast
  from a show "arr g d \<noteq> []"
    by (auto simp: addChoice.simps split: if_splits sum.splits dest: addChoice_when_starts_nonempty)
qed

theorem input_is_consumed_witness:
  "chainTasks [[SfnObject taskA, SfnChoice oneBranch], [SfnObject taskX, SfnObject taskB], [SfnObject taskY]] 0 True =
     Inr (Next (Task (LambdaInvoke ''A''
                  \<lparr>lambdaFunction = ''fnA'', inputPath = None, retryOnServiceExceptions = False\<rparr> []))
            (Afterwards ''route''
              [(''isSmall'',
                Built (Next (Task (LambdaInvoke ''X''
                               \<lparr>lambdaFunction = ''fnX'', inputPath = Some ''$.Payload'',
                                retryOnServiceExceptions = False\<rparr> []))
                         (Task (LambdaInvoke ''B''
                               \<lparr>lambdaFunction = ''fnB'', inputPath = Some ''$.Payload'',
                                retryOnServiceExceptions = False\<rparr>
                               [\<lparr>interval = 5, maxAttempts = 3,
                                 retry_errors = [''States.TaskFailed'']\<rparr>]))))]),
          [[], [], [SfnObject taskY]]) \<and>
   arr [[SfnObject taskA, SfnChoice oneBranch], [SfnObject taskX, SfnObject taskB], [SfnObject taskY]] 0 \<noteq> [] \<and>
   arr [[], [], [SfnObject taskY]] 0 = [] \<and>
   addChoice [[], [SfnObject taskX], [SfnObject taskY]] oneBranch True =
     Inr (Afterwards ''route''
           [(''isSmall'',
             Built (Task (LambdaInvoke ''X''
                      \<lparr>lambdaFunction = ''fnX'', inputPath = None,
                       retryOnServiceExceptions = False\<rparr> [])))],
          [[], [], [SfnObject taskY]]) \<and>
   arr [[], [SfnObject taskX], [SfnObject taskY]] 1 \<noteq> [] \<and>
   arr [[], [], [SfnObject taskY]] 1 = []"
proof -
  let ?h = "[[SfnObject taskA, SfnChoice oneBranch], [SfnObject taskX, SfnObject taskB], [SfnObject taskY]]"
  let ?g = "[[], [SfnObject taskX], [SfnObject taskY]]"
  let ?h' = "[[], [], [SfnObject taskY]]"
  let ?c = "Next (Task (LambdaInvoke ''A''
                  \<lparr>lambdaFunction = ''fnA'', inputPath = None, retryOnServiceExceptions = False\<rparr> []))
            (Afterwards ''route''
              [(''isSmall'',
                Built (Next (Task (LambdaInvoke ''X''
                               \<lparr>lambdaFunction = ''fnX'', inputPath = Some ''$.Payload'',
                                retryOnServiceExceptions = False\<rparr> []))
                         (Task (LambdaInvoke ''B''
                               \<lparr>lambdaFunction = ''fnB'', inputPath = Some ''$.Payload'',
                                retryOnServiceExceptions = False\<rparr>
                               [\<lparr>interval = 5, maxAttempts = 3,
                                 retry_errors = [''States.TaskFailed'']\<rparr>]))))])"
  let ?c' = "Afterwards ''route''
           [(''isSmall'',
             Built (Task (LambdaInvoke ''X''
                      \<lparr>lambdaFunction = ''fnX'', inputPath = None,
                       retryOnServiceExceptions = False\<rparr> [])))]"
  have r1: "chainTasks ?h 0 True = Inr (?c, ?h')" by code_simp
  have r2: "addChoice ?g oneBranch True = Inr (?c', ?h')" by code_simp
  have d: "defaultFunctions oneBranch = Functions 1" by (simp add: oneBranch_def)
  have e: "\<exists>e\<in>set (choices oneBranch). \<exists>fs. functions' e = Some (Functions fs)"
    by (simp add: oneBranch_def)
  from input_is_consumed[of ?h 0 True ?c ?h' ?g oneBranch True ?c' ?h' 1] r1 r2 d e
  show ?thesis by blast
qed

section \<open>Choices\<close>

text \<open>
  In the loop of \<open>addChoice\<close> every entry whose \<open>functions\<close> is an array makes a call of
  \<open>chainTasks\<close> on the one array \<open>choice.defaultFunctions\<close>. The first such call leaves
  that array empty, so the next one removes \<open>undefined\<close> from it and throws: with two such
  entries or more, \<open>addChoice\<close> never returns a chain.
\<close>

lemma addChoice_when_on_empty:
  "arr h d = [] \<Longrightarrow> \<exists>e\<in>set cs. \<exists>fs. functions' e = Some (Functions fs) \<Longrightarrow>
   \<exists>err. addChoice_when h (Functions d) first cs = Inl err"
proof (induction cs)
  case Nil
  then show ?case by simp
next
  case (Cons e cs)
  show ?case
  proof (cases "functions' e")
    case None
    then show ?thesis by simp
  next
    case (Some f)
    show ?thesis
    proof (cases f)
      case (PassState p)
      then have "\<exists>e\<in>set cs. \<exists>fs. functions' e = Some (Functions fs)"
        using Cons.prems(2) Some by auto
      with Cons.IH Cons.prems(1) obtain err where
        "addChoice_when h (Functions d) first cs = Inl err" by blast
      with Some PassState show ?thesis by simp
    next
      case (Functions fs)
      with Some Cons.prems(1) show ?thesis by (simp add: chainTasks_Nil)
    qed
  qed
qed

lemma two_array_branches_throw:
  "2 \<le> length (filter (\<lambda>e. \<exists>fs. functions' e = Some (Functions fs)) cs) \<Longrightarrow>
   \<exists>err. addChoice_when h (Functions d) first cs = Inl err"
proof (induction cs)
  case Nil
  then show ?case by simp
next
  case (Cons e cs)
  show ?case
  proof (cases "functions' e")
    case None
    then show ?thesis by simp
  next
    case (Some f)
    show ?thesis
    proof (cases f)
      case (PassState p)
      with Cons Some obtain err where "addChoice_when h (Functions d) first cs = Inl err"
        by auto
      with Some PassState show ?thesis by simp
    next
      case (Functions fs)
      with Some Cons.prems have "1 \<le> length (filter (\<lambda>e. \<exists>fs. functions' e = Some (Functions fs)) cs)"
        by simp
      then have "filter (\<lambda>e. \<exists>fs. functions' e = Some (Functions fs)) cs \<noteq> []"
        by auto
      then obtain x where "x \<in> set (filter (\<lambda>e. \<exists>fs. functions' e = Some (Functions fs)) cs)"
        by (cases "filter (\<lambda>e. \<exists>fs. functions' e = Some (Functions fs)) cs") auto
      then have ex: "\<exists>e\<in>set cs. \<exists>fs. functions' e = Some (Functions fs)"
        by auto
      show ?thesis
      proof (cases "chainTasks h d first")
        case (Inl err)
        with Some Functions show ?thesis by simp
      next
        case (Inr r)
        obtain body h1 where r: "r = (body, h1)" by (cases r)
        with Inr have "arr h1 d = []" using chainTasks_leaves_empty by blast
        from addChoice_when_on_empty[OF this ex, of first] obtain err where
          "addChoice_when h1 (Functions d) first cs = Inl err" by blast
        with Some Functions Inr r show ?thesis by simp
      qed
    qed
  qed
qed


text \<open>
  C3. The claim is that the body of each branch is the chain built from the entry's own
  function list. For the choice \<open>oneBranch\<close>, whose entry has the array \<open>[taskY]\<close> (at
  address 2) as its own functions and whose \<open>defaultFunctions\<close> is the array \<open>[taskX]\<close> (at
  address 1), \<open>addChoice\<close> builds the branch from \<open>taskX\<close>; the entry's own array is
  left as it was and no task is built for \<open>taskY\<close>.
\<close>

theorem branch_body_from_defaultFunctions:
  "addChoice [[], [SfnObject taskX], [SfnObject taskY]] oneBranch True =
     Inr (Afterwards ''route''
           [(''isSmall'',
             Built (Task (LambdaInvoke ''X''
                      \<lparr>lambdaFunction = ''fnX'', inputPath = None,
                       retryOnServiceExceptions = False\<rparr> [])))],
          [[], [], [SfnObject taskY]])"
  by code_simp

text \<open>
  C4. The claim is that \<open>shift()\<close> never returns \<open>undefined\<close> when the lists of the input
  are not empty. For the choice \<open>twoBranches\<close>, with the non-empty arrays \<open>[taskX]\<close>,
  \<open>[taskY]\<close> and \<open>[taskY]\<close> as its \<open>defaultFunctions\<close> and as the functions of its two
  entries, the call of \<open>chainTasks\<close> for the first entry returns and leaves the
  \<open>defaultFunctions\<close> array empty, and the call for the second entry, on that same array,
  reads a field of \<open>undefined\<close>.
\<close>

theorem second_branch_undefined_descriptor:
  "chainTasks [[], [SfnObject taskX], [SfnObject taskY], [SfnObject taskY]] 1 True =
     Inr (Task (LambdaInvoke ''X''
                 \<lparr>lambdaFunction = ''fnX'', inputPath = None, retryOnServiceExceptions = False\<rparr> []),
          [[], [], [SfnObject taskY], [SfnObject taskY]]) \<and>
   chainTasks [[], [], [SfnObject taskY], [SfnObject taskY]] 1 True = Inl UndefinedDescriptor \<and>
   addChoice [[], [SfnObject taskX], [SfnObject taskY], [SfnObject taskY]] twoBranches True =
     Inl UndefinedDescriptor"
  by code_simp

text \<open>
  C1. The claim is that every non-empty list is turned into a chain of its tasks, in
  their order. A list that holds a choice with two branches is turned into no chain at
  all: \<open>chainTasks\<close> throws.
\<close>

theorem two_branches_no_chain:
  "chainTasks [[SfnObject taskA, SfnChoice twoBranches, SfnObject taskB],
               [SfnObject taskX], [SfnObject taskY], [SfnObject taskY]] 0 True =
     Inl UndefinedDescriptor"
  by code_simp

text \<open>
  C2. The claim is that every Lambda task built after a Lambda task has been emitted is
  created with the input path \<^verbatim>\<open>$.Payload\<close>. In the list of \<open>oneBranch\<close>
  followed by \<open>taskB\<close>, the task for \<open>taskX\<close> is built first, inside the branch of the
  choice, and the task for \<open>taskB\<close> is built after it, with an undefined input path:
  \<open>addChoice\<close> is given the flag \<open>first\<close> by value and \<open>chainTasks\<close> goes on with the
  flag it had before the choice.
\<close>

theorem task_after_choice_inputPath:
  "chainTasks [[SfnChoice oneBranch, SfnObject taskB], [SfnObject taskX], [SfnObject taskY]] 0 True =
     Inr (Next (Afterwards ''route''
                 [(''isSmall'',
                   Built (Task (LambdaInvoke ''X''
                            \<lparr>lambdaFunction = ''fnX'', inputPath = None,
                             retryOnServiceExceptions = False\<rparr> [])))])
               (Task (LambdaInvoke ''B''
                        \<lparr>lambdaFunction = ''fnB'', inputPath = None,
                         retryOnServiceExceptions = False\<rparr>
                        [\<lparr>interval = 5, maxAttempts = 3, retry_errors = [''States.TaskFailed'']\<rparr>])),
          [[], [], [SfnObject taskY]])"
  by code_simp


section \<open>The calls of a run\<close>

lemma shift_shorter:
  "shift h a = (Some d, h1) \<Longrightarrow> length (arr h1 a) < length (arr h a)"
  by (auto simp: shift_def arr_shifted split: list.splits)

lemma chainTasks_calls_smaller:
  assumes "chainTasks_calls x y"
  shows "store_size (fst y) < store_size (fst x) \<and>
         (fst (snd y) = fst (snd x) \<longrightarrow>
            length (arr (fst y) (fst (snd x))) < length (arr (fst x) (fst (snd x))))"
  using assms
proof cases
  case (after_task h a obj h1 first)
  then show ?thesis using shift_size[of "SfnObject obj" h1 h a] shift_shorter[of h a _ h1] by simp
next
  case (after_choice h a c h1 first task h2)
  then have "consumed h1 h2" using consumed_addChoice by blast
  then have "store_size h2 \<le> store_size h1" "length (arr h2 a) \<le> length (arr h1 a)"
    by (rule consumed_size, rule consumed_length)
  with after_choice show ?thesis
    using shift_size[of "SfnChoice c" h1 h a] shift_shorter[of h a _ h1] by simp
next
  case (in_choice h a c h1 before choiceObj others first branches h2 fs d)
  then have "consumed h1 h2" using consumed_addChoice_when by blast
  then have "store_size h2 \<le> store_size h1" "length (arr h2 a) \<le> length (arr h1 a)"
    by (rule consumed_size, rule consumed_length)
  with in_choice show ?thesis
    using shift_size[of "SfnChoice c" h1 h a] shift_shorter[of h a _ h1] by simp
qed

text \<open>
  C7, as amended. The recursion of \<open>chainTasks\<close> ends on every store and every list (the
  definition above is total: \<open>chainTasks_total\<close>): the relation between a run and the runs
  it calls is well-founded, because every run removes an element from an array of the
  store before it calls, and no run adds one. A run that calls itself on the rest of
  its own list is given a list strictly shorter than the one it was given.
\<close>

theorem chainTasks_calls_terminate:
  "wf {(y, x). chainTasks_calls x y} \<and>
   (\<forall>h a first h' a' first'. chainTasks_calls (h, a, first) (h', a', first') \<longrightarrow>
      store_size h' < store_size h \<and>
      (a' = a \<longrightarrow> length (arr h' a) < length (arr h a)))"
proof
  have "{(y, x). chainTasks_calls x y} \<subseteq> measure (\<lambda>x. store_size (fst x))"
    using chainTasks_calls_smaller by auto
  then show "wf {(y, x). chainTasks_calls x y}"
    using wf_measure wf_subset by blast
  show "\<forall>h a first h' a' first'. chainTasks_calls (h, a, first) (h', a', first') \<longrightarrow>
      store_size h' < store_size h \<and>
      (a' = a \<longrightarrow> length (arr h' a) < length (arr h a))"
    using chainTasks_calls_smaller by fastforce
qed

theorem chainTasks_calls_terminate_witness:
  "chainTasks_calls ([[SfnObject taskA, SfnObject taskB]], 0, True) ([[SfnObject taskB]], 0, False) \<and>
   store_size [[SfnObject taskB]] < store_size [[SfnObject taskA, SfnObject taskB]] \<and>
   length (arr [[SfnObject taskB]] 0) < length (arr [[SfnObject taskA, SfnObject taskB]] 0)"
proof -
  have s: "shift [[SfnObject taskA, SfnObject taskB]] 0 = (Some (SfnObject taskA), [[SfnObject taskB]])"
    by (simp add: shift_def arr_def)
  have n: "arr [[SfnObject taskB]] 0 \<noteq> []" by (simp add: arr_def)
  have c: "chainTasks_calls ([[SfnObject taskA, SfnObject taskB]], 0, True) ([[SfnObject taskB]], 0, False)"
    using s n by (rule after_task)
  with chainTasks_calls_terminate show ?thesis by blast
qed

text \<open>
  C7 as stated fails for the call made through \<open>addChoice\<close>: it is given the
  \<open>defaultFunctions\<close> of the choice, here a list of two descriptors, while the list of
  its caller held one.
\<close>

theorem call_in_choice_longer_list_counterexample:
  "chainTasks_calls ([[SfnChoice oneBranch], [SfnObject taskX, SfnObject taskB], [SfnObject taskY]], 0, True)
                    ([[], [SfnObject taskX, SfnObject taskB], [SfnObject taskY]], 1, True) \<and>
   \<not> length (arr [[], [SfnObject taskX, SfnObject taskB], [SfnObject taskY]] 1)
       < length (arr [[SfnChoice oneBranch], [SfnObject taskX, SfnObject taskB], [SfnObject taskY]] 0)"
proof
  let ?h = "[[SfnChoice oneBranch], [SfnObject taskX, SfnObject taskB], [SfnObject taskY]]"
  let ?h1 = "[[], [SfnObject taskX, SfnObject taskB], [SfnObject taskY]]"
  have s: "shift ?h 0 = (Some (SfnChoice oneBranch), ?h1)"
    by (simp add: shift_def arr_def)
  have c: "choices oneBranch = [] @ \<lparr>condition = ''isSmall'', functions' = Some (Functions 2)\<rparr> # []"
    by (simp add: oneBranch_def)
  have w: "addChoice_when ?h1 (defaultFunctions oneBranch) True [] = Inr ([], ?h1)" by simp
  have f: "functions' \<lparr>condition = ''isSmall'', functions' = Some (Functions 2)\<rparr> = Some (Functions 2)"
    by simp
  have d: "defaultFunctions oneBranch = Functions 1" by (simp add: oneBranch_def)
  show "chainTasks_calls (?h, 0, True) (?h1, 1, True)"
    using s c w f d by (rule in_choice)
  show "\<not> length (arr ?h1 1) < length (arr ?h 0)" by (simp add: arr_def)
qed


section \<open>Runs and the configuration they start from\<close>

text \<open>
  Two runs on stores that agree on a closed set of addresses holding the list go the
  same way: they throw the same error, or return the same chain and leave stores that
  still agree on the set. The proof follows the recursion of the three functions.
\<close>

lemma reach_closed: "closed (reach h a) h"
  unfolding closed_def using reach.nested by blast

lemma closed_consumed: "closed S h \<Longrightarrow> consumed h h' \<Longrightarrow> closed S h'"
  unfolding closed_def consumed_def by (metis in_set_dropD)

lemma alike_Inl: "alike S (Inl e) r' \<longleftrightarrow> r' = Inl e"
  by (simp add: alike_def)

lemma alike_Inr: "alike S (Inr (v, h1)) r' \<longleftrightarrow> (\<exists>h1'. r' = Inr (v, h1') \<and> agree S h1 h1')"
  by (simp add: alike_def)

lemma alike_outcome: "alike S r r' \<Longrightarrow> outcome r = outcome r'"
  by (auto simp: alike_def outcome_def split: sum.splits)

lemma agree_shifted:
  "agree S h h' \<Longrightarrow> arr h a = d # rest \<Longrightarrow> arr h' a = d # rest \<Longrightarrow>
   agree S (h[a := rest]) (h'[a := rest])"
  by (simp add: agree_def arr_shifted)

lemma alike_runs:
  "\<forall>h'. closed S h \<longrightarrow> agree S h h' \<longrightarrow> a \<in> S \<longrightarrow>
     alike S (chainTasks h a first) (chainTasks h' a first)"
  "\<forall>h'. closed S h2 \<longrightarrow> agree S h2 h' \<longrightarrow> (\<forall>d. defaultFunctions ch = Functions d \<longrightarrow> d \<in> S) \<longrightarrow>
     alike S (addChoice h2 ch first2) (addChoice h' ch first2)"
  "\<forall>h'. closed S h3 \<longrightarrow> agree S h3 h' \<longrightarrow> (\<forall>d. dflt = Functions d \<longrightarrow> d \<in> S) \<longrightarrow>
     alike S (addChoice_when h3 dflt first3 cs) (addChoice_when h' dflt first3 cs)"
proof (induction h a first and h2 ch first2 and h3 dflt first3 cs
    rule: chainTasks_addChoice_addChoice_when.induct)
  case (1 h a first)
  show ?case
  proof (intro allI impI)
    fix h' assume cl: "closed S h" and ag: "agree S h h'" and aS: "a \<in> S"
    from ag aS have same: "arr h' a = arr h a" by (simp add: agree_def)
    show "alike S (chainTasks h a first) (chainTasks h' a first)"
    proof (cases "arr h a")
      case Nil
      with same show ?thesis by (simp add: chainTasks_Nil alike_Inl)
    next
      case (Cons d rest)
      with same have dr': "arr h' a = d # rest" by simp
      let ?h1 = "h[a := rest]" and ?h1' = "h'[a := rest]"
      have s: "(Some d, ?h1) = shift h a" using Cons by (simp add: shift_Cons)
      have ag1: "agree S ?h1 ?h1'" using ag Cons dr' by (rule agree_shifted)
      have "consumed h ?h1" using s consumed_shift[of h a "Some d" ?h1] by simp
      with cl have cl1: "closed S ?h1" by (rule closed_consumed)
      have a1: "arr ?h1 a = rest" using Cons by (simp add: arr_shifted)
      show ?thesis
      proof (cases d)
        case (SfnObject obj)
        show ?thesis
        proof (cases "rest = []")
          case True
          with Cons dr' SfnObject ag1 show ?thesis
            by (simp add: chainTasks_SfnObject alike_Inr)
        next
          case False
          with a1 have "arr ?h1 a \<noteq> []" by simp
          from "1.IH"(1)[OF s refl SfnObject this] cl1 ag1 aS
          have ih: "alike S (chainTasks ?h1 a False) (chainTasks ?h1' a False)" by blast
          show ?thesis
          proof (cases "chainTasks ?h1 a False")
            case (Inl e)
            with ih have "chainTasks ?h1' a False = Inl e" by (simp add: alike_Inl)
            with Inl Cons dr' SfnObject False show ?thesis
              by (simp add: chainTasks_SfnObject alike_Inl)
          next
            case (Inr r)
            obtain c hr where r: "r = (c, hr)" by (cases r)
            with ih Inr obtain hr' where "chainTasks ?h1' a False = Inr (c, hr')" "agree S hr hr'"
              by (auto simp: alike_Inr)
            with Inr r Cons dr' SfnObject False show ?thesis
              by (simp add: chainTasks_SfnObject alike_Inr)
          qed
        qed
      next
        case (SfnChoice ch)
        have dS: "\<forall>d. defaultFunctions ch = Functions d \<longrightarrow> d \<in> S"
          using cl aS Cons SfnChoice unfolding closed_def by auto
        from "1.IH"(2)[OF s refl SfnChoice] cl1 ag1 dS
        have ih: "alike S (addChoice ?h1 ch first) (addChoice ?h1' ch first)" by blast
        show ?thesis
        proof (cases "addChoice ?h1 ch first")
          case (Inl e)
          with ih have "addChoice ?h1' ch first = Inl e" by (simp add: alike_Inl)
          with Inl Cons dr' SfnChoice show ?thesis
            by (simp add: chainTasks_SfnChoice alike_Inl)
        next
          case (Inr r)
          obtain task h2 where r: "r = (task, h2)" by (cases r)
          with ih Inr obtain h2' where
            ac': "addChoice ?h1' ch first = Inr (task, h2')" and ag2: "agree S h2 h2'"
            by (auto simp: alike_Inr)
          from Inr r have ac: "addChoice ?h1 ch first = Inr (task, h2)" by simp
          then have "consumed ?h1 h2" by (rule consumed_addChoice)
          with cl1 have cl2: "closed S h2" by (rule closed_consumed)
          from ag2 aS have same2: "arr h2' a = arr h2 a" by (simp add: agree_def)
          show ?thesis
          proof (cases "arr h2 a = []")
            case True
            with ac ac' ag2 same2 Cons dr' SfnChoice show ?thesis
              by (simp add: chainTasks_SfnChoice alike_Inr)
          next
            case False
            from "1.IH"(3)[OF s refl SfnChoice ac refl False] cl2 ag2 aS
            have ih2: "alike S (chainTasks h2 a first) (chainTasks h2' a first)" by blast
            show ?thesis
            proof (cases "chainTasks h2 a first")
              case (Inl e)
              with ih2 have "chainTasks h2' a first = Inl e" by (simp add: alike_Inl)
              with Inl ac ac' same2 False Cons dr' SfnChoice show ?thesis
                by (simp add: chainTasks_SfnChoice alike_Inl)
            next
              case (Inr r2)
              obtain c hr where r2: "r2 = (c, hr)" by (cases r2)
              with ih2 Inr obtain hr' where "chainTasks h2' a first = Inr (c, hr')" "agree S hr hr'"
                by (auto simp: alike_Inr)
              with Inr r2 ac ac' same2 False Cons dr' SfnChoice show ?thesis
                by (simp add: chainTasks_SfnChoice alike_Inr)
            qed
          qed
        qed
      qed
    qed
  qed
next
  case (2 h choice first)
  show ?case
  proof (intro allI impI)
    fix h' assume cl: "closed S h" and ag: "agree S h h'"
      and dS: "\<forall>d. defaultFunctions choice = Functions d \<longrightarrow> d \<in> S"
    show "alike S (addChoice h choice first) (addChoice h' choice first)"
    proof (cases "choices choice = []")
      case True
      with ag show ?thesis by (simp add: addChoice.simps alike_Inr)
    next
      case False
      from "2.IH"[OF False] cl ag dS
      have ih: "alike S (addChoice_when h (defaultFunctions choice) first (choices choice))
                        (addChoice_when h' (defaultFunctions choice) first (choices choice))"
        by blast
      with False show ?thesis
        by (auto simp: addChoice.simps alike_def split: sum.splits)
    qed
  qed
next
  case (3 h dflt first)
  show ?case by (simp add: alike_Inr)
next
  case (4 h dflt first choiceObj others)
  show ?case
  proof (intro allI impI)
    fix h' assume cl: "closed S h" and ag: "agree S h h'"
      and dS: "\<forall>d. dflt = Functions d \<longrightarrow> d \<in> S"
    show "alike S (addChoice_when h dflt first (choiceObj # others))
                  (addChoice_when h' dflt first (choiceObj # others))"
    proof (cases "functions' choiceObj")
      case None
      then show ?thesis by (simp add: alike_Inl)
    next
      case (Some f)
      show ?thesis
      proof (cases f)
        case (PassState p)
        from "4.IH"(3)[OF Some PassState] cl ag dS
        have "alike S (addChoice_when h dflt first others) (addChoice_when h' dflt first others)"
          by blast
        with Some PassState show ?thesis
          by (auto simp: alike_def split: sum.splits)
      next
        case (Functions fs)
        show ?thesis
        proof (cases dflt)
          case (PassState p)
          with Some Functions show ?thesis by (simp add: alike_Inl)
        next
          case df: (Functions d)
          with dS have "d \<in> S" by simp
          with "4.IH"(1)[OF Some Functions df] cl ag
          have ih: "alike S (chainTasks h d first) (chainTasks h' d first)" by blast
          show ?thesis
          proof (cases "chainTasks h d first")
            case (Inl e)
            with ih have "chainTasks h' d first = Inl e" by (simp add: alike_Inl)
            with Inl Some Functions df show ?thesis by (simp add: alike_Inl)
          next
            case (Inr r)
            obtain body h1 where r: "r = (body, h1)" by (cases r)
            with ih Inr obtain h1' where
              ct': "chainTasks h' d first = Inr (body, h1')" and ag1: "agree S h1 h1'"
              by (auto simp: alike_Inr)
            from Inr r have ct: "chainTasks h d first = Inr (body, h1)" by simp
            then have "consumed h h1" by (rule consumed_chainTasks)
            with cl have cl1: "closed S h1" by (rule closed_consumed)
            from "4.IH"(2)[OF Some Functions df ct refl] cl1 ag1 dS
            have "alike S (addChoice_when h1 dflt first others) (addChoice_when h1' dflt first others)"
              by blast
            with ct ct' Some Functions df show ?thesis
              by (auto simp: alike_def split: sum.splits)
          qed
        qed
      qed
    qed
  qed
qed


lemma alike_reachable:
  "agree (reach h a) h h' \<Longrightarrow> alike (reach h a) (chainTasks h a first) (chainTasks h' a first)"
  using alike_runs(1)[of "reach h a" h a first] reach_closed[of h a] reach.root[of a h] by blast

text \<open>
  In the model, two runs from stores that agree on the arrays reachable from the list
  have the same outcome, whatever else the stores hold.
\<close>

lemma agreeing_stores_same_outcome:
  "(agree (reach h a) h h' \<longrightarrow>
      outcome (chainTasks h a first) = outcome (chainTasks h' a first)) \<and>
   (agree (reach g (lambdaFunctions props)) g g' \<longrightarrow>
      outcome (new_SerialSfnConstruct g ident props) =
      outcome (new_SerialSfnConstruct g' ident props))"
proof (intro conjI impI)
  assume "agree (reach h a) h h'"
  then show "outcome (chainTasks h a first) = outcome (chainTasks h' a first)"
    using alike_reachable alike_outcome by blast
next
  let ?a = "lambdaFunctions props"
  assume ag: "agree (reach g ?a) g g'"
  then have same: "arr g' ?a = arr g ?a" using reach.root[of ?a g] by (simp add: agree_def)
  from ag have "alike (reach g ?a) (chainTasks g ?a True) (chainTasks g' ?a True)"
    by (rule alike_reachable)
  with same show "outcome (new_SerialSfnConstruct g ident props) =
      outcome (new_SerialSfnConstruct g' ident props)"
    by (auto simp: new_SerialSfnConstruct_def outcome_def alike_def Let_def split: sum.splits)
qed

text \<open>
  C8, as amended. The outcome of a run depends on the configuration as it stands when
  the run starts, and a run changes it. Two runs of \<open>chainTasks\<close> that both return, from
  stores in which the arrays reachable from the list hold the same descriptors, return
  the same chain, and two constructions that both return from such stores, with the same
  identifier and props, build the same construct. But a run consumes the arrays it reads:
  after a run of \<open>chainTasks\<close> that returns, a second run on the same list throws a
  \<open>TypeError\<close>; and after a construction that returns for a non-empty list, a second
  construction from the same props that returns has built nothing, where the first has
  built a state machine.
\<close>

theorem repeatable_from_equal_configurations_only:
  "(agree (reach h a) h h' \<and> chainTasks h a first = Inr (c, h1) \<and>
    chainTasks h' a first = Inr (c', h1') \<longrightarrow> c = c') \<and>
   (agree (reach k (lambdaFunctions props)) k k' \<and>
    new_SerialSfnConstruct k ident props = Inr (con, k1) \<and>
    new_SerialSfnConstruct k' ident props = Inr (con', k1') \<longrightarrow> con = con') \<and>
   (chainTasks g b first1 = Inr (d, g1) \<longrightarrow> chainTasks g1 b first2 = Inl UndefinedDescriptor) \<and>
   (arr m (lambdaFunctions props') \<noteq> [] \<and>
    new_SerialSfnConstruct m ident1 props' = Inr (con1, m1) \<and>
    new_SerialSfnConstruct m1 ident2 props' = Inr (con2, m2) \<longrightarrow>
      stateMachine con1 \<noteq> None \<and>
      con2 = \<lparr>parallel = None, logGroup = None, stateMachine = None\<rparr> \<and> m2 = m1)"
proof (intro conjI impI)
  assume "agree (reach h a) h h' \<and> chainTasks h a first = Inr (c, h1) \<and>
    chainTasks h' a first = Inr (c', h1')"
  then show "c = c'"
    using agreeing_stores_same_outcome[of h a h' first] by (simp add: outcome_def)
next
  assume "agree (reach k (lambdaFunctions props)) k k' \<and>
    new_SerialSfnConstruct k ident props = Inr (con, k1) \<and>
    new_SerialSfnConstruct k' ident props = Inr (con', k1')"
  then show "con = con'"
    using agreeing_stores_same_outcome[of _ _ _ _ k props k' ident] by (simp add: outcome_def)
next
  assume "chainTasks g b first1 = Inr (d, g1)"
  then have "arr g1 b = []" by (rule chainTasks_leaves_empty)
  then show "chainTasks g1 b first2 = Inl UndefinedDescriptor" by (rule chainTasks_Nil)
next
  assume a: "arr m (lambdaFunctions props') \<noteq> [] \<and>
    new_SerialSfnConstruct m ident1 props' = Inr (con1, m1) \<and>
    new_SerialSfnConstruct m1 ident2 props' = Inr (con2, m2)"
  then obtain tasks where ct: "chainTasks m (lambdaFunctions props') True = Inr (tasks, m1)"
    by (auto simp: new_SerialSfnConstruct_def Let_def split: sum.splits)
  from a ct show "stateMachine con1 \<noteq> None"
    by (auto simp: new_SerialSfnConstruct_def Let_def)
  from ct have "arr m1 (lambdaFunctions props') = []" by (rule chainTasks_leaves_empty)
  with a show "con2 = \<lparr>parallel = None, logGroup = None, stateMachine = None\<rparr>" and "m2 = m1"
    by (simp_all add: new_SerialSfnConstruct_def)
qed

theorem repeatable_from_equal_configurations_only_witness:
  "agree (reach [[SfnChoice oneBranch, SfnObject taskB], [SfnObject taskX], [SfnObject taskY]] 0)
         [[SfnChoice oneBranch, SfnObject taskB], [SfnObject taskX], [SfnObject taskY]]
         [[SfnChoice oneBranch, SfnObject taskB], [SfnObject taskX], [SfnObject taskA, SfnObject taskA], []] \<and>
   chainTasks [[SfnChoice oneBranch, SfnObject taskB], [SfnObject taskX], [SfnObject taskY]] 0 True =
     Inr (Next (Afterwards ''route''
                 [(''isSmall'',
                   Built (Task (LambdaInvoke ''X''
                            \<lparr>lambdaFunction = ''fnX'', inputPath = None,
                             retryOnServiceExceptions = False\<rparr> [])))])
               (Task (LambdaInvoke ''B''
                        \<lparr>lambdaFunction = ''fnB'', inputPath = None,
                         retryOnServiceExceptions = False\<rparr>
                        [\<lparr>interval = 5, maxAttempts = 3, retry_errors = [''States.TaskFailed'']\<rparr>])),
          [[], [], [SfnObject taskY]]) \<and>
   chainTasks [[SfnChoice oneBranch, SfnObject taskB], [SfnObject taskX],
               [SfnObject taskA, SfnObject taskA], []] 0 True =
     Inr (Next (Afterwards ''route''
                 [(''isSmall'',
                   Built (Task (LambdaInvoke ''X''
                            \<lparr>lambdaFunction = ''fnX'', inputPath = None,
                             retryOnServiceExceptions = False\<rparr> [])))])
               (Task (LambdaInvoke ''B''
                        \<lparr>lambdaFunction = ''fnB'', inputPath = None,
                         retryOnServiceExceptions = False\<rparr>
                        [\<lparr>interval = 5, maxAttempts = 3, retry_errors = [''States.TaskFailed'']\<rparr>])),
          [[], [], [SfnObject taskA, SfnObject taskA], []]) \<and>
   agree (reach [[SfnObject taskA]] (lambdaFunctions handlerProps))
         [[SfnObject taskA]] [[SfnObject taskA], [SfnObject taskB]] \<and>
   new_SerialSfnConstruct [[SfnObject taskA]] ''serial'' handlerProps = Inr (builtSerial, [[]]) \<and>
   new_SerialSfnConstruct [[SfnObject taskA], [SfnObject taskB]] ''serial'' handlerProps =
     Inr (builtSerial, [[], [SfnObject taskB]]) \<and>
   chainTasks [[]] 0 True = Inl UndefinedDescriptor \<and>
   arr [[SfnObject taskA]] (lambdaFunctions handlerProps) \<noteq> [] \<and>
   new_SerialSfnConstruct [[]] ''serial2'' handlerProps =
     Inr (\<lparr>parallel = None, logGroup = None, stateMachine = None\<rparr>, [[]]) \<and>
   stateMachine builtSerial \<noteq> None"
proof -
  let ?h = "[[SfnChoice oneBranch, SfnObject taskB], [SfnObject taskX], [SfnObject taskY]]"
  let ?h' = "[[SfnChoice oneBranch, SfnObject taskB], [SfnObject taskX],
              [SfnObject taskA, SfnObject taskA], []]"
  let ?c = "Next (Afterwards ''route''
                 [(''isSmall'',
                   Built (Task (LambdaInvoke ''X''
                            \<lparr>lambdaFunction = ''fnX'', inputPath = None,
                             retryOnServiceExceptions = False\<rparr> [])))])
               (Task (LambdaInvoke ''B''
                        \<lparr>lambdaFunction = ''fnB'', inputPath = None,
                         retryOnServiceExceptions = False\<rparr>
                        [\<lparr>interval = 5, maxAttempts = 3, retry_errors = [''States.TaskFailed'']\<rparr>]))"
  let ?k = "[[SfnObject taskA]]"
  let ?k' = "[[SfnObject taskA], [SfnObject taskB]]"
  let ?none = "\<lparr>parallel = None, logGroup = None, stateMachine = None\<rparr>"
  have r: "x = 0 \<or> x = 1" if "x \<in> reach ?h 0" for x
    using that
  proof induction
    case root
    then show ?case by simp
  next
    case (nested x c d)
    then show ?case by (auto simp: arr_def oneBranch_def)
  qed
  have "arr ?h 0 = arr ?h' 0" "arr ?h 1 = arr ?h' 1" by (simp_all add: arr_def)
  with r have ag: "agree (reach ?h 0) ?h ?h'" unfolding agree_def by metis
  have r1: "chainTasks ?h 0 True = Inr (?c, [[], [], [SfnObject taskY]])" by code_simp
  have r2: "chainTasks ?h' 0 True = Inr (?c, [[], [], [SfnObject taskA, SfnObject taskA], []])"
    by code_simp
  have l: "lambdaFunctions handlerProps = 0" by (simp add: handlerProps_def)
  have q: "x = 0" if "x \<in> reach ?k 0" for x
    using that
  proof induction
    case root
    then show ?case by simp
  next
    case (nested x c d)
    then show ?case by (auto simp: arr_def)
  qed
  have "arr ?k 0 = arr ?k' 0" by (simp add: arr_def)
  with q l have ag2: "agree (reach ?k (lambdaFunctions handlerProps)) ?k ?k'"
    unfolding agree_def by metis
  have n1: "new_SerialSfnConstruct ?k ''serial'' handlerProps = Inr (builtSerial, [[]])"
    by code_simp
  have n2: "new_SerialSfnConstruct ?k' ''serial'' handlerProps = Inr (builtSerial, [[], [SfnObject taskB]])"
    by code_simp
  have n3: "new_SerialSfnConstruct [[]] ''serial2'' handlerProps = Inr (?none, [[]])"
    by code_simp
  have ne: "arr ?k (lambdaFunctions handlerProps) \<noteq> []" by (simp add: arr_def l)
  have r3: "chainTasks ?k 0 True =
     Inr (Task (LambdaInvoke ''A''
                 \<lparr>lambdaFunction = ''fnA'', inputPath = None, retryOnServiceExceptions = False\<rparr> []),
          [[]])"
    by code_simp
  note inst = repeatable_from_equal_configurations_only
    [of ?h 0 ?h' True ?c "[[], [], [SfnObject taskY]]" ?c "[[], [], [SfnObject taskA, SfnObject taskA], []]"
        ?k handlerProps ?k' "''serial''" builtSerial "[[]]" builtSerial "[[], [SfnObject taskB]]"
        ?k 0 True _ "[[]]" True
        ?k handlerProps "''serial''" builtSerial "[[]]" "''serial2''" ?none "[[]]"]
  from inst r3 have p3: "chainTasks [[]] 0 True = Inl UndefinedDescriptor" by blast
  from inst ne n1 n3 have p4: "stateMachine builtSerial \<noteq> None" by blast
  from ag r1 r2 ag2 n1 n2 p3 ne n3 p4 show ?thesis by blast
qed

text \<open>
  C8 as stated fails across runs. A first run on the list \<open>[oneBranch]\<close> (address 0)
  returns a chain; the list at address 3 is then still equal to the list the first run
  was given, and a second run on it, say by another instance of the construct, throws:
  the two lists share the choice descriptor, whose \<open>defaultFunctions\<close> array the first
  run has left empty. A second run on the list of the first run itself throws as well.
  For the construct: the first construction from \<open>handlerProps\<close> builds \<open>builtSerial\<close>,
  and a second construction from the same props, under another identifier, finds the
  list empty and returns without building anything.
\<close>

theorem second_run_differs_counterexample:
  "chainTasks [[SfnChoice oneBranch], [SfnObject taskX], [SfnObject taskY], [SfnChoice oneBranch]] 0 True =
     Inr (Afterwards ''route''
           [(''isSmall'',
             Built (Task (LambdaInvoke ''X''
                      \<lparr>lambdaFunction = ''fnX'', inputPath = None,
                       retryOnServiceExceptions = False\<rparr> [])))],
          [[], [], [SfnObject taskY], [SfnChoice oneBranch]]) \<and>
   arr [[], [], [SfnObject taskY], [SfnChoice oneBranch]] 3 =
   arr [[SfnChoice oneBranch], [SfnObject taskX], [SfnObject taskY], [SfnChoice oneBranch]] 0 \<and>
   chainTasks [[], [], [SfnObject taskY], [SfnChoice oneBranch]] 3 True = Inl UndefinedDescriptor \<and>
   chainTasks [[], [], [SfnObject taskY], [SfnChoice oneBranch]] 0 True = Inl UndefinedDescriptor \<and>
   new_SerialSfnConstruct [[SfnObject taskA]] ''serial'' handlerProps = Inr (builtSerial, [[]]) \<and>
   new_SerialSfnConstruct [[]] ''serial2'' handlerProps =
     Inr (\<lparr>parallel = None, logGroup = None, stateMachine = None\<rparr>, [[]])"
  by code_simp


section \<open>The empty task list\<close>



end
